theory Spec2Isabelle
  imports Main
begin

section \<open>Python text primitives used by make\_config\_acag30.py\<close>

text \<open>
  The script works on Python \<open>str\<close> values.  They are modelled as \<^typ>\<open>string\<close>, so the
  development covers texts whose code points lie in the range 0..255; on that range the
  definitions below follow CPython's \<open>str.isspace\<close>, \<open>str.split()\<close>, \<open>str.strip()\<close>,
  \<open>str.startswith\<close>, \<open>str.join\<close>, \<open>str.splitlines(keepends=True)\<close>, \<open>int(str)\<close> and
  \<open>str(int)\<close>.
\<close>

definition isspace :: "char \<Rightarrow> bool" where
  \<comment> \<open>tab, LF, VT, FF, CR, the separators 0x1C..0x1F, space, NEL (0x85) and NBSP (0xA0)\<close>
  "isspace c = (let n = (of_char c :: nat) in
     (9 \<le> n \<and> n \<le> 13) \<or> (28 \<le> n \<and> n \<le> 32) \<or> n = 133 \<or> n = 160)"

definition str_strip :: "string \<Rightarrow> string" where
  "str_strip s = rev (dropWhile isspace (rev (dropWhile isspace s)))"

definition str_startswith :: "string \<Rightarrow> string \<Rightarrow> bool" where
  "str_startswith s p = (take (length p) s = p)"

text \<open>
  \<open>s.split()\<close> scans the text once: whitespace closes the token under construction (if
  there is one), any other character extends it.  No token is empty.
\<close>

fun split_from :: "string \<Rightarrow> string \<Rightarrow> string list" where
  "split_from tok [] = (if tok = [] then [] else [tok])"
| "split_from tok (c # cs) =
     (if isspace c then (if tok = [] then split_from [] cs else tok # split_from [] cs)
      else split_from (tok @ [c]) cs)"

definition str_split :: "string \<Rightarrow> string list" where
  "str_split s = split_from [] s"

fun str_join :: "string \<Rightarrow> string list \<Rightarrow> string" where
  "str_join sep [] = []"
| "str_join sep [p] = p"
| "str_join sep (p # q # ps) = p @ sep @ str_join sep (q # ps)"

definition is_linebreak :: "char \<Rightarrow> bool" where
  \<comment> \<open>the line boundaries of \<open>str.splitlines\<close>: LF, VT, FF, CR, 0x1C, 0x1D, 0x1E, NEL\<close>
  "is_linebreak c = (let n = (of_char c :: nat) in
     (10 \<le> n \<and> n \<le> 13) \<or> (28 \<le> n \<and> n \<le> 30) \<or> n = 133)"

fun splitlines_from :: "string \<Rightarrow> string \<Rightarrow> string list" where
  "splitlines_from cur [] = (if cur = [] then [] else [cur])"
| "splitlines_from cur [c] = [cur @ [c]]"
| "splitlines_from cur (c # d # cs) =
     (if c = CHR 0x0D \<and> d = CHR 0x0A then (cur @ [c, d]) # splitlines_from [] cs
      else if is_linebreak c then (cur @ [c]) # splitlines_from [] (d # cs)
      else splitlines_from (cur @ [c]) (d # cs))"

definition splitlines :: "string \<Rightarrow> string list" where
  \<comment> \<open>\<open>text.splitlines(keepends=True)\<close>\<close>
  "splitlines s = splitlines_from [] s"

subsection \<open>Integer literals\<close>

definition is_digit :: "char \<Rightarrow> bool" where
  "is_digit c = (let n = (of_char c :: nat) in 48 \<le> n \<and> n \<le> 57)"

definition digit_val :: "char \<Rightarrow> int" where
  "digit_val c = int (of_char c) - 48"

text \<open>
  After the first digit, \<open>int\<close> accepts further digits, each optionally preceded by one
  underscore.
\<close>

fun int_digits :: "int \<Rightarrow> string \<Rightarrow> int option" where
  "int_digits acc [] = Some acc"
| "int_digits acc [c] = (if is_digit c then Some (10 * acc + digit_val c) else None)"
| "int_digits acc (c # d # cs) =
     (if is_digit c then int_digits (10 * acc + digit_val c) (d # cs)
      else if c = CHR ''_'' \<and> is_digit d then int_digits (10 * acc + digit_val d) cs
      else None)"

definition int_max_str_digits :: nat where
  \<comment> \<open>CPython's default bound on the digits of a decimal literal\<close>
  "int_max_str_digits = 4300"

definition unsigned_int :: "string \<Rightarrow> int option" where
  "unsigned_int s =
     (case s of
        [] \<Rightarrow> None
      | c # cs \<Rightarrow>
          if \<not> is_digit c then None
          else if int_max_str_digits < length (filter is_digit s) then None
          else int_digits (digit_val c) cs)"

definition py_int :: "string \<Rightarrow> int option" where
  \<comment> \<open>\<open>int(s)\<close>; \<open>None\<close> stands for the \<open>ValueError\<close> of an invalid literal\<close>
  "py_int s =
     (case str_strip s of
        [] \<Rightarrow> None
      | c # cs \<Rightarrow>
          if c = CHR ''-'' then map_option uminus (unsigned_int cs)
          else if c = CHR ''+'' then unsigned_int cs
          else unsigned_int (c # cs))"

fun nat_digits :: "nat \<Rightarrow> string" where
  "nat_digits n =
     (if n < 10 then [char_of (48 + n)]
      else nat_digits (n div 10) @ [char_of (48 + n mod 10)])"

declare nat_digits.simps [simp del]

definition py_str :: "int \<Rightarrow> string" where
  \<comment> \<open>\<open>str(i)\<close> for an integer\<close>
  "py_str i = (if i < 0 then CHR ''-'' # nat_digits (nat (- i)) else nat_digits (nat i))"

subsection \<open>Errors, list indexing, ranges\<close>

datatype error =
    MissingHeaderFact       \<comment> \<open>"Could not find '<N> atoms' line in header."\<close>
  | MissingSection          \<comment> \<open>"Could not find 'Atoms' section in data file."\<close>
  | TruncatedDocument       \<comment> \<open>"Atoms block (expected ... lines) extends past EOF ..."\<close>
  | EmptyBlock              \<comment> \<open>"No atom entries found in Atoms block."\<close>
  | IndivisibleChainCount   \<comment> \<open>"Total atoms (...) is not divisible by number of chains (...)."\<close>
  | MalformedRecord         \<comment> \<open>"Unexpected atom line format at line ...: ..."\<close>
  | InvalidLiteral          \<comment> \<open>the \<open>ValueError\<close> raised by \<open>int\<close>\<close>
  | ZeroDivisionError
  | IndexError
  | FileNotFoundError

definition py_pos :: "nat \<Rightarrow> int \<Rightarrow> nat option" where
  \<comment> \<open>the position a Python index addresses in a list of length \<open>n\<close>; negative indices count from the end\<close>
  "py_pos n i =
     (if 0 \<le> i \<and> i < int n then Some (nat i)
      else if i < 0 \<and> - int n \<le> i then Some (nat (int n + i))
      else None)"

definition getitem :: "'a list \<Rightarrow> int \<Rightarrow> error + 'a" where
  "getitem xs i = (case py_pos (length xs) i of None \<Rightarrow> Inl IndexError | Some p \<Rightarrow> Inr (xs ! p))"

definition setitem :: "'a list \<Rightarrow> int \<Rightarrow> 'a \<Rightarrow> error + 'a list" where
  "setitem xs i v =
     (case py_pos (length xs) i of None \<Rightarrow> Inl IndexError | Some p \<Rightarrow> Inr (xs[p := v]))"

definition py_range :: "int \<Rightarrow> int \<Rightarrow> int list" where
  \<comment> \<open>\<open>range(a, b)\<close>, empty when \<open>b \<le> a\<close>\<close>
  "py_range a b = map (\<lambda>k. a + int k) [0..<nat (b - a)]"

section \<open>The four stages\<close>

subsection \<open>Header scan\<close>

fun parse_num_atoms :: "string list \<Rightarrow> error + int" where
  "parse_num_atoms [] = Inl MissingHeaderFact"
| "parse_num_atoms (line # lines) =
     (let parts = str_split line in
      if length parts = 2 \<and> parts ! 1 = ''atoms'' then
        (case py_int (parts ! 0) of None \<Rightarrow> Inl InvalidLiteral | Some n \<Rightarrow> Inr n)
      else parse_num_atoms lines)"

subsection \<open>Block locator\<close>

fun find_header :: "nat \<Rightarrow> string list \<Rightarrow> nat option" where
  \<comment> \<open>the \<open>enumerate\<close> loop with its \<open>break\<close>; \<open>i\<close> is the index of the first line of the list\<close>
  "find_header i [] = None"
| "find_header i (line # lines) =
     (if str_startswith (str_strip line) ''Atoms'' then Some i
      else find_header (Suc i) lines)"

definition find_atoms_block :: "string list \<Rightarrow> int \<Rightarrow> error + (int \<times> int)" where
  "find_atoms_block lines natoms =
     (case find_header 0 lines of
        None \<Rightarrow> Inl MissingSection
      | Some atoms_header_idx \<Rightarrow>
          let atoms_start = int atoms_header_idx + 2;
              atoms_end = atoms_start + natoms
          in if atoms_end > int (length lines) then Inl TruncatedDocument
             else Inr (atoms_start, atoms_end))"

subsection \<open>Chain inference\<close>

fun collect_mol_ids :: "string list \<Rightarrow> int list \<Rightarrow> int list \<Rightarrow> error + int list" where
  \<comment> \<open>the loop of lines 43--50: \<open>mol_ids\<close> so far, then the indices still to visit\<close>
  "collect_mol_ids lines mol_ids [] = Inr mol_ids"
| "collect_mol_ids lines mol_ids (i # rest) =
     (case getitem lines i of
        Inl e \<Rightarrow> Inl e
      | Inr l \<Rightarrow>
          let line = str_strip l in
          if line = [] \<or> str_startswith line ''#'' then collect_mol_ids lines mol_ids rest
          else
            let parts = str_split line in
            if length parts < 3 then collect_mol_ids lines mol_ids rest
            else
              (case py_int (parts ! 1) of
                 None \<Rightarrow> Inl InvalidLiteral
               | Some m \<Rightarrow> collect_mol_ids lines (mol_ids @ [m]) rest))"

definition infer_chain_length_and_count ::
  "string list \<Rightarrow> int \<Rightarrow> int \<Rightarrow> error + (int \<times> int)" where
  "infer_chain_length_and_count lines atoms_start atoms_end =
     (let n_atoms = atoms_end - atoms_start in
      case collect_mol_ids lines [] (py_range atoms_start atoms_end) of
        Inl e \<Rightarrow> Inl e
      | Inr [] \<Rightarrow> Inl EmptyBlock
      | Inr (m # ms) \<Rightarrow>
          let n_chains = fold max ms m in
          if n_chains = 0 then Inl ZeroDivisionError
          else if n_atoms mod n_chains \<noteq> 0 then Inl IndivisibleChainCount
          else Inr (n_atoms div n_chains, n_chains))"

subsection \<open>Remapper\<close>

definition base_pattern :: "int list" where
  "base_pattern = [1, 2, 1, 3]"

definition pattern_len :: int where
  "pattern_len = int (length base_pattern)"

fun remap_loop :: "int \<Rightarrow> string list \<Rightarrow> string list \<Rightarrow> int list \<Rightarrow> error + string list" where
  \<comment> \<open>the loop of lines 65--79: \<open>new_lines\<close> so far, then the indices still to visit\<close>
  "remap_loop chain_len lines new_lines [] = Inr new_lines"
| "remap_loop chain_len lines new_lines (i # rest) =
     (case getitem lines i of
        Inl e \<Rightarrow> Inl e
      | Inr raw \<Rightarrow>
          let stripped = str_strip raw in
          if stripped = [] \<or> str_startswith stripped ''#'' then
            remap_loop chain_len lines new_lines rest
          else
            let parts = str_split raw in
            if length parts < 6 then Inl MalformedRecord
            else
              (case py_int (parts ! 0) of
                 None \<Rightarrow> Inl InvalidLiteral
               | Some atom_id \<Rightarrow>
                   if chain_len = 0 then Inl ZeroDivisionError
                   else
                     let idx_in_chain = (atom_id - 1) mod chain_len;
                         new_type = base_pattern ! nat (idx_in_chain mod pattern_len);
                         parts' = parts[2 := py_str new_type]
                     in (case setitem new_lines i (str_join '' '' parts' @ ''\<newline>'') of
                           Inl e \<Rightarrow> Inl e
                         | Inr new_lines' \<Rightarrow> remap_loop chain_len lines new_lines' rest)))"

definition remap_to_acag30 :: "string list \<Rightarrow> int \<Rightarrow> int \<Rightarrow> int \<Rightarrow> error + string list" where
  "remap_to_acag30 lines atoms_start atoms_end chain_len =
     remap_loop chain_len lines lines (py_range atoms_start atoms_end)"

subsection \<open>The program\<close>

text \<open>
  The run reads one file and, at the very end, writes one.  The world is the file store
  (path to text, as \<open>read_text\<close> delivers it and \<open>write_text\<close> takes it) and the lines
  printed so far.
\<close>

record world =
  files :: "string \<rightharpoonup> string"
  stdout :: "string list"

definition detected_msg :: "int \<Rightarrow> int \<Rightarrow> int \<Rightarrow> string" where
  "detected_msg natoms n_chains chain_len =
     ''Detected '' @ py_str natoms @ '' atoms, '' @ py_str n_chains @ '' chains, ''
       @ py_str chain_len @ '' nucleotides per chain.''"

definition wrote_msg :: "string \<Rightarrow> string" where
  "wrote_msg path = ''Wrote remapped data file to: '' @ path"

definition main :: "string \<Rightarrow> string \<Rightarrow> world \<Rightarrow> (error + unit) \<times> world" where
  "main input output w =
     (case files w input of
        None \<Rightarrow> (Inl FileNotFoundError, w)
      | Some text \<Rightarrow>
          let lines = splitlines text in
          (case parse_num_atoms lines of
            Inl e \<Rightarrow> (Inl e, w)
          | Inr natoms \<Rightarrow>
              (case find_atoms_block lines natoms of
                 Inl e \<Rightarrow> (Inl e, w)
               | Inr (atoms_start, atoms_end) \<Rightarrow>
                   (case infer_chain_length_and_count lines atoms_start atoms_end of
                      Inl e \<Rightarrow> (Inl e, w)
                    | Inr (chain_len, n_chains) \<Rightarrow>
                        let w1 = w\<lparr>stdout := stdout w @ [detected_msg natoms n_chains chain_len]\<rparr> in
                        (case remap_to_acag30 lines atoms_start atoms_end chain_len of
                           Inl e \<Rightarrow> (Inl e, w1)
                         | Inr new_lines \<Rightarrow>
                             (Inr (),
                              w1\<lparr>files := (files w1)(output \<mapsto> concat new_lines),
                                 stdout := stdout w1 @ [wrote_msg output]\<rparr>))))))"

section \<open>Vocabulary of the properties\<close>

definition is_token :: "string \<Rightarrow> bool" where
  \<comment> \<open>a non-empty text without whitespace\<close>
  "is_token t = (t \<noteq> [] \<and> (\<forall>c\<in>set t. \<not> isspace c))"

definition is_blank :: "string \<Rightarrow> bool" where
  "is_blank raw = (str_strip raw = [])"

definition is_comment :: "string \<Rightarrow> bool" where
  "is_comment raw = str_startswith (str_strip raw) ''#''"

definition is_record :: "string \<Rightarrow> bool" where
  \<comment> \<open>a line that is neither blank nor comment-prefixed\<close>
  "is_record raw = (\<not> is_blank raw \<and> \<not> is_comment raw)"

definition is_header :: "string \<Rightarrow> bool" where
  \<comment> \<open>the test of line 26\<close>
  "is_header line = str_startswith (str_strip line) ''Atoms''"

text \<open>
  What one pass of the remapper's loop body does with the line it reads: skip it
  (\<open>Inr None\<close>), replace it (\<open>Inr (Some new_line)\<close>) or raise.
\<close>

definition line_result :: "int \<Rightarrow> string \<Rightarrow> error + string option" where
  "line_result chain_len raw =
     (if str_strip raw = [] \<or> str_startswith (str_strip raw) ''#'' then Inr None
      else if length (str_split raw) < 6 then Inl MalformedRecord
      else
        (case py_int (str_split raw ! 0) of
           None \<Rightarrow> Inl InvalidLiteral
         | Some atom_id \<Rightarrow>
             if chain_len = 0 then Inl ZeroDivisionError
             else Inr (Some (str_join '' ''
                    ((str_split raw)[2 := py_str (base_pattern !
                        nat (((atom_id - 1) mod chain_len) mod pattern_len))]) @ ''\<newline>''))))"

text \<open>
  What one pass of the inference loop body does with the line it reads: skip it
  (\<open>Inr None\<close>), collect a molecule id or raise.
\<close>

definition mol_result :: "string \<Rightarrow> error + int option" where
  "mol_result l =
     (if str_strip l = [] \<or> str_startswith (str_strip l) ''#'' then Inr None
      else if length (str_split (str_strip l)) < 3 then Inr None
      else
        (case py_int (str_split (str_strip l) ! 1) of
           None \<Rightarrow> Inl InvalidLiteral
         | Some m \<Rightarrow> Inr (Some m)))"

text \<open>
  The line found at a position of the block after the remapper has passed it: the
  replacement if there is one, the old line otherwise.
\<close>

definition remapped :: "int \<Rightarrow> string \<Rightarrow> string \<Rightarrow> string" where
  "remapped cl raw old = (case line_result cl raw of Inr (Some v) \<Rightarrow> v | _ \<Rightarrow> old)"

section \<open>Data files used as examples\<close>

text \<open>
  A file with two chains of two beads; the block holds a comment line, a record with
  irregular spacing and a last record without a newline.  \<open>example_out\<close> is what the
  remapper makes of it.
\<close>

definition example_doc :: "string list" where
  "example_doc =
     [''LAMMPS data file\<newline>'',
      ''4 atoms\<newline>'',
      ''Atoms # full\<newline>'',
      ''\<newline>'',
      ''1 1 9 0.0 0.0 0.0\<newline>'',
      ''# second bead\<newline>'',
      ''2  1  9  1.5 0.0 0.0\<newline>'',
      ''3 2 9 3.0 0.0 0.0'']"

definition example_out :: "string list" where
  "example_out =
     [''LAMMPS data file\<newline>'',
      ''4 atoms\<newline>'',
      ''Atoms # full\<newline>'',
      ''\<newline>'',
      ''1 1 1 0.0 0.0 0.0\<newline>'',
      ''# second bead\<newline>'',
      ''2 1 2 1.5 0.0 0.0\<newline>'',
      ''3 2 1 3.0 0.0 0.0\<newline>'']"

text \<open>Three atoms in two chains: the block size is not a multiple of the chain count.\<close>

definition odd_doc :: "string list" where
  "odd_doc =
     [''3 atoms\<newline>'',
      ''Atoms\<newline>'',
      ''\<newline>'',
      ''1 1 1 0.0 0.0 0.0\<newline>'',
      ''2 2 1 0.0 0.0 0.0\<newline>'',
      ''3 2 1 0.0 0.0 0.0\<newline>'']"

text \<open>A record with four fields after a well-formed one.\<close>

definition four_field_doc :: "string list" where
  "four_field_doc =
     [''2 atoms\<newline>'',
      ''Atoms\<newline>'',
      ''\<newline>'',
      ''1 1 1 0.0 0.0 0.0\<newline>'',
      ''2 1 1 0.0\<newline>'']"

text \<open>All atoms carry molecule id 0.\<close>

definition zero_mol_doc :: "string list" where
  "zero_mol_doc =
     [''1 atoms\<newline>'',
      ''Atoms\<newline>'',
      ''\<newline>'',
      ''1 0 1 0.0 0.0 0.0\<newline>'']"

text \<open>A block whose only line has two fields.\<close>

definition short_line_doc :: "string list" where
  "short_line_doc =
     [''1 atoms\<newline>'',
      ''Atoms\<newline>'',
      ''\<newline>'',
      ''7 5\<newline>'']"

text \<open>A record whose id is not an integer, followed by a record with four fields; and alone.\<close>

definition bad_id_doc :: "string list" where
  "bad_id_doc =
     [''2 atoms\<newline>'',
      ''Atoms\<newline>'',
      ''\<newline>'',
      ''x 1 1 0.0 0.0 0.0\<newline>'',
      ''2 1 1 0.0\<newline>'']"

definition bad_id_only_doc :: "string list" where
  "bad_id_only_doc =
     [''1 atoms\<newline>'',
      ''Atoms\<newline>'',
      ''\<newline>'',
      ''x 1 1 0.0 0.0 0.0\<newline>'']"

text \<open>A file store that holds one file, with nothing printed yet.\<close>

definition world_with :: "string \<Rightarrow> string \<Rightarrow> world" where
  "world_with path text = \<lparr>files = [path \<mapsto> text], stdout = []\<rparr>"

section \<open>Facts about the text primitives\<close>

lemma split_from_leading:
  "\<forall>c\<in>set ws. isspace c \<Longrightarrow> split_from [] (ws @ s) = split_from [] s"
  by (induction ws) auto

lemma split_from_extend:
  "\<forall>c\<in>set t. \<not> isspace c \<Longrightarrow> split_from tok (t @ s) = split_from (tok @ t) s"
  by (induction t arbitrary: tok) auto

lemma split_from_blank:
  "\<forall>c\<in>set ws. isspace c \<Longrightarrow> split_from tok ws = (if tok = [] then [] else [tok])"
  by (induction ws arbitrary: tok) auto

lemma split_from_trailing:
  "\<forall>c\<in>set ws. isspace c \<Longrightarrow> split_from tok (s @ ws) = split_from tok s"
  by (induction s arbitrary: tok) (auto simp: split_from_blank)

lemma split_from_tokens:
  "\<forall>c\<in>set tok. \<not> isspace c \<Longrightarrow> \<forall>t\<in>set (split_from tok s). is_token t"
proof (induction s arbitrary: tok)
  case Nil
  then show ?case by (simp add: is_token_def)
next
  case (Cons c cs)
  show ?case
  proof (cases "isspace c")
    case True
    have "\<forall>t\<in>set (split_from [] cs). is_token t"
      by (rule Cons.IH) simp
    moreover have "tok \<noteq> [] \<longrightarrow> is_token tok"
      using Cons.prems by (simp add: is_token_def)
    ultimately show ?thesis using True by simp
  next
    case False
    have "\<forall>t\<in>set (split_from (tok @ [c]) cs). is_token t"
      by (rule Cons.IH) (use Cons.prems False in simp)
    then show ?thesis using False by simp
  qed
qed

lemma str_split_tokens: "t \<in> set (str_split s) \<Longrightarrow> is_token t"
  using split_from_tokens [of "[]" s] by (simp add: str_split_def)

lemma rev_dropWhile_decomp:
  "r = rev (dropWhile P (rev r)) @ rev (takeWhile P (rev r))"
proof -
  have "rev r = takeWhile P (rev r) @ dropWhile P (rev r)"
    by (simp only: takeWhile_dropWhile_id)
  then have "rev (rev r) = rev (takeWhile P (rev r) @ dropWhile P (rev r))"
    by (rule arg_cong)
  then show ?thesis by (simp only: rev_rev_ident rev_append)
qed

lemma dropWhile_strip:
  "\<exists>post. dropWhile isspace s = str_strip s @ post \<and> (\<forall>c\<in>set post. isspace c)"
proof -
  let ?r = "dropWhile isspace s"
  let ?post = "rev (takeWhile isspace (rev ?r))"
  have "?r = str_strip s @ ?post"
    unfolding str_strip_def by (rule rev_dropWhile_decomp)
  moreover have "\<forall>c\<in>set ?post. isspace c"
    by (auto dest: set_takeWhileD)
  ultimately show ?thesis by blast
qed

lemma strip_decomp:
  "\<exists>pre post. s = pre @ str_strip s @ post \<and> (\<forall>c\<in>set pre. isspace c) \<and> (\<forall>c\<in>set post. isspace c)"
proof -
  obtain post where c: "dropWhile isspace s = str_strip s @ post"
    and f: "\<forall>c\<in>set post. isspace c"
    using dropWhile_strip by blast
  have "takeWhile isspace s @ dropWhile isspace s = s" by simp
  then have d: "s = takeWhile isspace s @ str_strip s @ post"
    by (simp only: c)
  have e: "\<forall>c\<in>set (takeWhile isspace s). isspace c"
    by (auto dest: set_takeWhileD)
  show ?thesis using d e f by blast
qed

lemma str_split_strip: "str_split (str_strip s) = str_split s"
proof -
  obtain pre post where d: "s = pre @ str_strip s @ post"
    and p: "\<forall>c\<in>set pre. isspace c" and q: "\<forall>c\<in>set post. isspace c"
    using strip_decomp by blast
  have "split_from [] s = split_from [] (pre @ (str_strip s @ post))"
    by (rule arg_cong [OF d])
  also have "\<dots> = split_from [] (str_strip s @ post)"
    by (rule split_from_leading [OF p])
  also have "\<dots> = split_from [] (str_strip s)"
    by (rule split_from_trailing [OF q])
  finally show ?thesis by (simp add: str_split_def)
qed

lemma strip_hd_nonspace:
  assumes ne: "str_strip s \<noteq> []"
  shows "\<not> isspace (hd (str_strip s))"
proof -
  obtain post where c: "dropWhile isspace s = str_strip s @ post"
    using dropWhile_strip by blast
  have rne: "dropWhile isspace s \<noteq> []" using ne by (simp add: c)
  have h: "\<not> isspace (hd (dropWhile isspace s))" using rne by (rule hd_dropWhile)
  have "hd (dropWhile isspace s) = hd (str_strip s)" using ne by (simp add: c)
  then show ?thesis using h by simp
qed

lemma split_from_hd:
  "tok \<noteq> [] \<Longrightarrow> split_from tok s \<noteq> [] \<and> hd (hd (split_from tok s)) = hd tok"
  by (induction s arbitrary: tok) auto

lemma str_split_hd:
  assumes "s \<noteq> []" "\<not> isspace (hd s)"
  shows "str_split s \<noteq> [] \<and> hd (hd (str_split s)) = hd s"
proof -
  obtain c cs where s: "s = c # cs" using assms(1) by (cases s) auto
  then have "str_split s = split_from [c] cs" using assms(2) by (simp add: str_split_def)
  then show ?thesis using split_from_hd [of "[c]" cs] s by simp
qed

lemma str_split_Nil_blank: "str_split s = [] \<longleftrightarrow> str_strip s = []"
proof
  assume e: "str_split s = []"
  show "str_strip s = []"
  proof (rule ccontr)
    assume ne: "str_strip s \<noteq> []"
    have "str_split (str_strip s) \<noteq> []"
      using str_split_hd [OF ne strip_hd_nonspace [OF ne]] by simp
    then show False using e by (simp add: str_split_strip)
  qed
next
  assume "str_strip s = []"
  then have "str_split (str_strip s) = []" by (simp add: str_split_def)
  then show "str_split s = []" by (simp add: str_split_strip)
qed

lemma strip_hd_first_token:
  assumes ne: "str_strip s \<noteq> []"
  shows "hd (str_strip s) = hd (hd (str_split s))"
  using str_split_hd [OF ne strip_hd_nonspace [OF ne]]
  by (simp add: str_split_strip)

lemma startswith_hash: "str_startswith s ''#'' \<longleftrightarrow> s \<noteq> [] \<and> hd s = CHR ''#''"
  by (cases s) (auto simp: str_startswith_def)

lemma split_join_tokens:
  "ps \<noteq> [] \<Longrightarrow> \<forall>t\<in>set ps. is_token t \<Longrightarrow> \<forall>c\<in>set ws. isspace c \<Longrightarrow>
   split_from [] (str_join '' '' ps @ ws) = ps"
proof (induction ps)
  case Nil
  then show ?case by simp
next
  case (Cons p ps)
  have tok: "\<forall>c\<in>set p. \<not> isspace c" "p \<noteq> []" using Cons.prems by (auto simp: is_token_def)
  show ?case
  proof (cases ps)
    case Nil
    have "split_from [] (p @ ws) = split_from p ws"
      using split_from_extend [OF tok(1), of "[]" ws] by simp
    then show ?thesis using Nil Cons.prems(3) tok(2) by (simp add: split_from_blank)
  next
    case (Cons q qs)
    have sp: "isspace CHR '' ''" by (simp add: isspace_def)
    have ih: "split_from [] (str_join '' '' ps @ ws) = ps"
      using Cons.IH Cons.prems Cons by simp
    have "split_from [] (str_join '' '' (p # ps) @ ws)
          = split_from [] (p @ (CHR '' '' # (str_join '' '' ps @ ws)))"
      using Cons by simp
    also have "\<dots> = split_from p (CHR '' '' # (str_join '' '' ps @ ws))"
      using split_from_extend [OF tok(1), of "[]"] by simp
    also have "\<dots> = p # split_from [] (str_join '' '' ps @ ws)"
      using sp tok(2) by simp
    also have "\<dots> = p # ps" using ih by simp
    finally show ?thesis .
  qed
qed

lemma getitem_nonneg:
  "0 \<le> i \<Longrightarrow> i < int (length xs) \<Longrightarrow> getitem xs i = Inr (xs ! nat i)"
  by (simp add: getitem_def py_pos_def)

lemma setitem_nonneg:
  "0 \<le> i \<Longrightarrow> i < int (length xs) \<Longrightarrow> setitem xs i v = Inr (xs[nat i := v])"
  by (simp add: setitem_def py_pos_def)

lemma setitem_length: "setitem xs i v = Inr ys \<Longrightarrow> length ys = length xs"
  by (auto simp: setitem_def split: option.splits)

lemma set_py_range: "i \<in> set (py_range a b) \<longleftrightarrow> a \<le> i \<and> i < b"
proof
  assume "i \<in> set (py_range a b)"
  then obtain k where "k < nat (b - a)" "i = a + int k"
    by (auto simp: py_range_def)
  then show "a \<le> i \<and> i < b" by auto
next
  assume h: "a \<le> i \<and> i < b"
  then have "nat (i - a) < nat (b - a)" "i = a + int (nat (i - a))" by auto
  then show "i \<in> set (py_range a b)"
    unfolding py_range_def by (metis (no_types, lifting) atLeast0LessThan imageI lessThan_iff set_map set_upt)
qed

lemma length_py_range: "length (py_range a b) = nat (b - a)"
  by (simp add: py_range_def)

lemma nth_py_range: "k < nat (b - a) \<Longrightarrow> py_range a b ! k = a + int k"
  by (simp add: py_range_def)

lemma remap_loop_Cons:
  "remap_loop cl lines nl (i # rest) =
     (case getitem lines i of
        Inl e \<Rightarrow> Inl e
      | Inr raw \<Rightarrow>
          (case line_result cl raw of
             Inl e \<Rightarrow> Inl e
           | Inr None \<Rightarrow> remap_loop cl lines nl rest
           | Inr (Some v) \<Rightarrow>
               (case setitem nl i v of
                  Inl e \<Rightarrow> Inl e
                | Inr nl' \<Rightarrow> remap_loop cl lines nl' rest)))"
  by (simp add: line_result_def Let_def split: sum.splits option.splits)

lemma remap_loop_length:
  "remap_loop cl lines nl idxs = Inr out \<Longrightarrow> length out = length nl"
proof (induction idxs arbitrary: nl)
  case Nil
  then show ?case by simp
next
  case (Cons i rest)
  from Cons.prems show ?case
    by (auto simp: remap_loop_Cons simp del: remap_loop.simps
        split: sum.splits option.splits dest!: Cons.IH setitem_length)
qed

lemma remap_loop_all_ok:
  assumes "remap_loop cl lines nl idxs = Inr out"
    and "\<forall>i\<in>set idxs. 0 \<le> i \<and> i < int (length lines)"
  shows "\<forall>i\<in>set idxs. \<exists>r. line_result cl (lines ! nat i) = Inr r"
  using assms
proof (induction idxs arbitrary: nl)
  case Nil
  then show ?case by simp
next
  case (Cons i rest)
  have g: "getitem lines i = Inr (lines ! nat i)"
    using Cons.prems(2) by (simp add: getitem_nonneg)
  have v: "\<forall>i\<in>set rest. 0 \<le> i \<and> i < int (length lines)"
    using Cons.prems(2) by simp
  show ?case
  proof (cases "line_result cl (lines ! nat i)")
    case (Inl e)
    then show ?thesis using Cons.prems(1) g
      by (simp add: remap_loop_Cons del: remap_loop.simps)
  next
    case (Inr r)
    have "\<exists>nl'. remap_loop cl lines nl' rest = Inr out"
      using Cons.prems(1) g Inr
      by (auto simp: remap_loop_Cons simp del: remap_loop.simps split: option.splits sum.splits)
    then obtain nl' where "remap_loop cl lines nl' rest = Inr out" ..
    then have "\<forall>i\<in>set rest. \<exists>r. line_result cl (lines ! nat i) = Inr r"
      using Cons.IH v by blast
    then show ?thesis using Inr by simp
  qed
qed

lemma remap_loop_nth:
  assumes "remap_loop cl lines nl idxs = Inr out"
    and "\<forall>i\<in>set idxs. 0 \<le> i \<and> i < int (length lines)"
    and "length nl = length lines"
    and "p < length lines"
  shows "out ! p = (if int p \<in> set idxs then remapped cl (lines ! p) (nl ! p) else nl ! p)"
  using assms
proof (induction idxs arbitrary: nl)
  case Nil
  then show ?case by simp
next
  case (Cons i rest)
  have g: "getitem lines i = Inr (lines ! nat i)"
    using Cons.prems(2) by (simp add: getitem_nonneg)
  have v: "\<forall>i\<in>set rest. 0 \<le> i \<and> i < int (length lines)"
    using Cons.prems(2) by simp
  have ip: "int p = i \<longleftrightarrow> p = nat i" using Cons.prems(2) by auto
  show ?case
  proof (cases "line_result cl (lines ! nat i)")
    case (Inl e)
    then show ?thesis using Cons.prems(1) g
      by (simp add: remap_loop_Cons del: remap_loop.simps)
  next
    case (Inr r)
    show ?thesis
    proof (cases r)
      case None
      have run: "remap_loop cl lines nl rest = Inr out"
        using Cons.prems(1) g Inr None
        by (simp add: remap_loop_Cons del: remap_loop.simps)
      have ih: "out ! p = (if int p \<in> set rest then remapped cl (lines ! p) (nl ! p) else nl ! p)"
        using Cons.IH [OF run v Cons.prems(3) Cons.prems(4)] .
      have "int p = i \<Longrightarrow> remapped cl (lines ! p) (nl ! p) = nl ! p"
        using Inr None by (simp add: remapped_def ip)
      then show ?thesis using ih by auto
    next
      case (Some w)
      have s: "setitem nl i w = Inr (nl[nat i := w])"
        using Cons.prems(2,3) by (simp add: setitem_nonneg)
      have run: "remap_loop cl lines (nl[nat i := w]) rest = Inr out"
        using Cons.prems(1) g Inr Some s
        by (simp add: remap_loop_Cons del: remap_loop.simps)
      have len: "length (nl[nat i := w]) = length lines" using Cons.prems(3) by simp
      have ih: "out ! p = (if int p \<in> set rest
                  then remapped cl (lines ! p) (nl[nat i := w] ! p) else nl[nat i := w] ! p)"
        using Cons.IH [OF run v len Cons.prems(4)] .
      show ?thesis
      proof (cases "p = nat i")
        case True
        have a: "nl[nat i := w] ! p = w" using True Cons.prems(3,4) by simp
        have b: "remapped cl (lines ! p) x = w" for x
          using Inr Some True by (simp add: remapped_def)
        show ?thesis using ih a b True ip by simp
      next
        case False
        have a: "nl[nat i := w] ! p = nl ! p" using False by simp
        show ?thesis using ih a False ip by simp
      qed
    qed
  qed
qed

lemma remap_loop_fails_iff:
  assumes "\<forall>i\<in>set idxs. 0 \<le> i \<and> i < int (length lines)"
    and "length nl = length lines"
  shows "remap_loop cl lines nl idxs = Inl e \<longleftrightarrow>
         (\<exists>pre i post. idxs = pre @ i # post
            \<and> (\<forall>j\<in>set pre. \<exists>r. line_result cl (lines ! nat j) = Inr r)
            \<and> line_result cl (lines ! nat i) = Inl e)"
  using assms
proof (induction idxs arbitrary: nl)
  case Nil
  then show ?case by simp
next
  case (Cons i0 rest)
  have g: "getitem lines i0 = Inr (lines ! nat i0)"
    using Cons.prems(1) by (simp add: getitem_nonneg)
  have v: "\<forall>i\<in>set rest. 0 \<le> i \<and> i < int (length lines)"
    using Cons.prems(1) by simp
  let ?Q = "\<lambda>xs. \<exists>pre i post. xs = pre @ i # post
            \<and> (\<forall>j\<in>set pre. \<exists>r. line_result cl (lines ! nat j) = Inr r)
            \<and> line_result cl (lines ! nat i) = Inl e"
  show ?case
  proof (cases "line_result cl (lines ! nat i0)")
    case (Inl e')
    have l: "remap_loop cl lines nl (i0 # rest) = Inl e'"
      using g Inl by (simp add: remap_loop_Cons del: remap_loop.simps)
    have "?Q (i0 # rest) \<longleftrightarrow> e' = e"
    proof
      assume "?Q (i0 # rest)"
      then obtain pre i post where d: "i0 # rest = pre @ i # post"
        and ok: "\<forall>j\<in>set pre. \<exists>r. line_result cl (lines ! nat j) = Inr r"
        and bad: "line_result cl (lines ! nat i) = Inl e" by blast
      show "e' = e"
      proof (cases pre)
        case Nil
        then show ?thesis using d bad Inl by simp
      next
        case (Cons a as)
        then have "a = i0" using d by simp
        then show ?thesis using ok Cons Inl by simp
      qed
    next
      assume "e' = e"
      then have "i0 # rest = [] @ i0 # rest \<and> (\<forall>j\<in>set []. \<exists>r. line_result cl (lines ! nat j) = Inr r)
            \<and> line_result cl (lines ! nat i0) = Inl e" using Inl by simp
      then show "?Q (i0 # rest)" by blast
    qed
    then show ?thesis using l by auto
  next
    case (Inr r)
    have "\<exists>nl'. length nl' = length lines \<and>
            remap_loop cl lines nl (i0 # rest) = remap_loop cl lines nl' rest"
    proof (cases r)
      case None
      then show ?thesis using g Inr Cons.prems(2)
        by (auto simp: remap_loop_Cons simp del: remap_loop.simps)
    next
      case (Some w)
      have s: "setitem nl i0 w = Inr (nl[nat i0 := w])"
        using Cons.prems by (simp add: setitem_nonneg)
      have "remap_loop cl lines nl (i0 # rest) = remap_loop cl lines (nl[nat i0 := w]) rest"
        using g Inr Some s by (simp add: remap_loop_Cons del: remap_loop.simps)
      moreover have "length (nl[nat i0 := w]) = length lines" using Cons.prems(2) by simp
      ultimately show ?thesis by blast
    qed
    then obtain nl' where len: "length nl' = length lines"
      and eq: "remap_loop cl lines nl (i0 # rest) = remap_loop cl lines nl' rest" by blast
    have ih: "remap_loop cl lines nl' rest = Inl e \<longleftrightarrow> ?Q rest"
      using Cons.IH [OF v len] .
    have "?Q (i0 # rest) \<longleftrightarrow> ?Q rest"
    proof
      assume "?Q (i0 # rest)"
      then obtain pre i post where d: "i0 # rest = pre @ i # post"
        and ok: "\<forall>j\<in>set pre. \<exists>r. line_result cl (lines ! nat j) = Inr r"
        and bad: "line_result cl (lines ! nat i) = Inl e" by blast
      show "?Q rest"
      proof (cases pre)
        case Nil
        then have "i = i0" using d by simp
        then show ?thesis using bad Inr by simp
      next
        case (Cons a as)
        then have "rest = as @ i # post" using d by simp
        moreover have "\<forall>j\<in>set as. \<exists>r. line_result cl (lines ! nat j) = Inr r"
          using ok Cons by simp
        ultimately show ?thesis using bad by blast
      qed
    next
      assume "?Q rest"
      then obtain pre i post where d: "rest = pre @ i # post"
        and ok: "\<forall>j\<in>set pre. \<exists>r. line_result cl (lines ! nat j) = Inr r"
        and bad: "line_result cl (lines ! nat i) = Inl e" by blast
      have "i0 # rest = (i0 # pre) @ i # post" using d by simp
      moreover have "\<forall>j\<in>set (i0 # pre). \<exists>r. line_result cl (lines ! nat j) = Inr r"
        using ok Inr by simp
      ultimately show "?Q (i0 # rest)" using bad by blast
    qed
    then show ?thesis using eq ih by simp
  qed
qed

lemma pattern_len_4: "pattern_len = 4"
  by (simp add: pattern_len_def base_pattern_def)

lemma pattern_entry_token: "is_token (py_str (base_pattern ! nat (x mod pattern_len)))"
proof -
  have "0 \<le> x mod 4" "x mod 4 < 4" by simp_all
  then have "x mod 4 = 0 \<or> x mod 4 = 1 \<or> x mod 4 = 2 \<or> x mod 4 = 3" by arith
  moreover have "is_token (py_str (base_pattern ! nat 0))"
    by (simp add: base_pattern_def py_str_def nat_digits.simps is_token_def isspace_def)
  moreover have "is_token (py_str (base_pattern ! nat 1))"
    by (simp add: base_pattern_def py_str_def nat_digits.simps is_token_def isspace_def)
  moreover have "is_token (py_str (base_pattern ! nat 2))"
    by (simp add: base_pattern_def py_str_def nat_digits.simps is_token_def isspace_def)
  moreover have "is_token (py_str (base_pattern ! nat 3))"
    by (simp add: base_pattern_def py_str_def nat_digits.simps is_token_def isspace_def)
  ultimately show ?thesis unfolding pattern_len_4 by metis
qed

lemma is_record_iff:
  "is_record raw \<longleftrightarrow> \<not> (str_strip raw = [] \<or> str_startswith (str_strip raw) ''#'')"
  by (simp add: is_record_def is_blank_def is_comment_def)

lemma line_result_skip: "line_result cl raw = Inr None \<longleftrightarrow> \<not> is_record raw"
  by (auto simp: line_result_def is_record_iff split: option.splits)

lemma line_result_malformed:
  "line_result cl raw = Inl MalformedRecord \<longleftrightarrow> is_record raw \<and> length (str_split raw) < 6"
  by (auto simp: line_result_def is_record_iff split: option.splits)

lemma line_result_ok:
  "(\<exists>r. line_result cl raw = Inr r) \<longleftrightarrow>
     \<not> is_record raw \<or> (6 \<le> length (str_split raw) \<and> py_int (str_split raw ! 0) \<noteq> None \<and> cl \<noteq> 0)"
  by (auto simp: line_result_def is_record_iff split: option.splits)

lemma line_result_rewrite:
  assumes "line_result cl raw = Inr r" "is_record raw"
  shows "6 \<le> length (str_split raw) \<and> cl \<noteq> 0 \<and>
         (\<exists>atom_id. py_int (str_split raw ! 0) = Some atom_id \<and>
            r = Some (str_join '' '' ((str_split raw)
                  [2 := py_str (base_pattern ! nat (((atom_id - 1) mod cl) mod pattern_len))])
                  @ ''\<newline>''))"
  using assms
  by (auto simp: line_result_def is_record_iff split: option.splits if_splits)

text \<open>The rewritten line splits back into the fields it was joined from.\<close>

lemma split_rewritten:
  assumes "2 < length (str_split raw)"
  shows "str_split (str_join '' '' ((str_split raw)
           [2 := py_str (base_pattern ! nat (x mod pattern_len))]) @ ''\<newline>'')
         = (str_split raw)[2 := py_str (base_pattern ! nat (x mod pattern_len))]"
proof -
  let ?t = "py_str (base_pattern ! nat (x mod pattern_len))"
  let ?ps = "(str_split raw)[2 := ?t]"
  have ne: "?ps \<noteq> []" using assms by auto
  have tk: "\<forall>t\<in>set ?ps. is_token t"
  proof
    fix t assume "t \<in> set ?ps"
    then have "t = ?t \<or> t \<in> set (str_split raw)"
      using set_update_subset_insert [of "str_split raw" 2 ?t] by auto
    then show "is_token t" using pattern_entry_token str_split_tokens by blast
  qed
  have nl: "\<forall>c\<in>set ''\<newline>''. isspace c" by (simp add: isspace_def)
  show ?thesis unfolding str_split_def [of "_ @ _"]
    by (rule split_join_tokens [OF ne tk nl])
qed

lemma rewritten_is_record:
  assumes "is_record raw" "2 < length (str_split raw)"
  shows "is_record (str_join '' '' ((str_split raw)
           [2 := py_str (base_pattern ! nat (x mod pattern_len))]) @ ''\<newline>'')"
proof -
  let ?ps = "(str_split raw)[2 := py_str (base_pattern ! nat (x mod pattern_len))]"
  let ?v = "str_join '' '' ?ps @ ''\<newline>''"
  have sp: "str_split ?v = ?ps" using assms(2) by (rule split_rewritten)
  have "str_split ?v \<noteq> []" using sp assms(2) by auto
  then have ne: "str_strip ?v \<noteq> []" by (simp add: str_split_Nil_blank)
  have ne0: "str_strip raw \<noteq> []" using assms(1) by (simp add: is_record_iff)
  have "hd (str_strip ?v) = hd (hd ?ps)"
    using strip_hd_first_token [OF ne] sp by simp
  also have "hd ?ps = hd (str_split raw)"
    using assms(2) by (cases "str_split raw") (auto simp: numeral_2_eq_2)
  also have "hd (hd (str_split raw)) = hd (str_strip raw)"
    using strip_hd_first_token [OF ne0] by simp
  finally have "hd (str_strip ?v) = hd (str_strip raw)" .
  then show ?thesis using assms(1) ne ne0
    by (simp add: is_record_iff startswith_hash)
qed

lemma mol_result_alt:
  "mol_result l =
     (if \<not> is_record l \<or> length (str_split l) < 3 then Inr None
      else (case py_int (str_split l ! 1) of
              None \<Rightarrow> Inl InvalidLiteral
            | Some m \<Rightarrow> Inr (Some m)))"
  by (simp add: mol_result_def is_record_iff str_split_strip)

lemma mol_result_rewritten:
  assumes "is_record raw" "5 < length (str_split raw)"
  shows "mol_result (str_join '' '' ((str_split raw)
           [2 := py_str (base_pattern ! nat (x mod pattern_len))]) @ ''\<newline>'')
         = mol_result raw"
proof -
  let ?ps = "(str_split raw)[2 := py_str (base_pattern ! nat (x mod pattern_len))]"
  let ?v = "str_join '' '' ?ps @ ''\<newline>''"
  have l2: "2 < length (str_split raw)" using assms(2) by simp
  have sp: "str_split ?v = ?ps" using l2 by (rule split_rewritten)
  have rec: "is_record ?v" using assms(1) l2 by (rule rewritten_is_record)
  have "mol_result ?v = (case py_int (?ps ! 1) of
              None \<Rightarrow> Inl InvalidLiteral
            | Some m \<Rightarrow> Inr (Some m))"
    using rec sp assms(2) by (simp add: mol_result_alt)
  also have "?ps ! 1 = str_split raw ! 1" by simp
  finally show ?thesis using assms by (simp add: mol_result_alt)
qed

lemma remapped_mol_result:
  assumes "\<exists>r. line_result cl raw = Inr r"
  shows "mol_result (remapped cl raw raw) = mol_result raw"
proof (cases "is_record raw")
  case False
  then have "line_result cl raw = Inr None" by (simp add: line_result_skip)
  then show ?thesis by (simp add: remapped_def)
next
  case True
  obtain r where r: "line_result cl raw = Inr r" using assms by blast
  from line_result_rewrite [OF r True]
  obtain atom_id where len: "6 \<le> length (str_split raw)"
    and v: "r = Some (str_join '' '' ((str_split raw)
                  [2 := py_str (base_pattern ! nat (((atom_id - 1) mod cl) mod pattern_len))])
                  @ ''\<newline>'')" by blast
  have "5 < length (str_split raw)" using len by simp
  from mol_result_rewritten [OF True this, of "(atom_id - 1) mod cl"]
  show ?thesis using r v by (simp add: remapped_def)
qed

subsection \<open>Chain inference\<close>

lemma collect_mol_ids_Cons:
  "collect_mol_ids lines ids (i # rest) =
     (case getitem lines i of
        Inl e \<Rightarrow> Inl e
      | Inr l \<Rightarrow>
          (case mol_result l of
             Inl e \<Rightarrow> Inl e
           | Inr None \<Rightarrow> collect_mol_ids lines ids rest
           | Inr (Some m) \<Rightarrow> collect_mol_ids lines (ids @ [m]) rest))"
  by (simp add: mol_result_def Let_def split: sum.splits option.splits)

lemma collect_mol_ids_cong:
  assumes "\<forall>i\<in>set idxs. 0 \<le> i \<and> i < int (length lines)"
    and "length out = length lines"
    and "\<forall>i\<in>set idxs. mol_result (out ! nat i) = mol_result (lines ! nat i)"
  shows "collect_mol_ids out ids idxs = collect_mol_ids lines ids idxs"
  using assms
proof (induction idxs arbitrary: ids)
  case Nil
  then show ?case by simp
next
  case (Cons i rest)
  have g1: "getitem lines i = Inr (lines ! nat i)"
    using Cons.prems(1) by (simp add: getitem_nonneg)
  have g2: "getitem out i = Inr (out ! nat i)"
    using Cons.prems(1,2) by (simp add: getitem_nonneg)
  have m: "mol_result (out ! nat i) = mol_result (lines ! nat i)"
    using Cons.prems(3) by simp
  have ih: "collect_mol_ids out ids' rest = collect_mol_ids lines ids' rest" for ids'
    using Cons.IH Cons.prems by simp
  show ?case
    by (simp add: collect_mol_ids_Cons g1 g2 m ih del: collect_mol_ids.simps
        split: sum.splits option.splits)
qed

lemma collect_mol_ids_ids:
  assumes "\<forall>i\<in>set idxs. 0 \<le> i \<and> i < int (length lines)"
    and "collect_mol_ids lines acc idxs = Inr ids"
  shows "map Some ids = map Some acc @
           map (\<lambda>i. py_int (str_split (lines ! nat i) ! 1))
             (filter (\<lambda>i. is_record (lines ! nat i) \<and> 3 \<le> length (str_split (lines ! nat i))) idxs)"
  using assms
proof (induction idxs arbitrary: acc)
  case Nil
  then show ?case by simp
next
  case (Cons i rest)
  have g: "getitem lines i = Inr (lines ! nat i)"
    using Cons.prems(1) by (simp add: getitem_nonneg)
  have v: "\<forall>i\<in>set rest. 0 \<le> i \<and> i < int (length lines)"
    using Cons.prems(1) by simp
  let ?c = "is_record (lines ! nat i) \<and> 3 \<le> length (str_split (lines ! nat i))"
  show ?case
  proof (cases ?c)
    case False
    then have m: "mol_result (lines ! nat i) = Inr None"
      by (auto simp: mol_result_alt)
    have "collect_mol_ids lines acc rest = Inr ids"
      using Cons.prems(2) g m by (simp add: collect_mol_ids_Cons del: collect_mol_ids.simps)
    from Cons.IH [OF v this] show ?thesis using False by simp
  next
    case True
    then have alt: "mol_result (lines ! nat i) =
        (case py_int (str_split (lines ! nat i) ! 1) of
              None \<Rightarrow> Inl InvalidLiteral
            | Some m \<Rightarrow> Inr (Some m))"
      by (simp add: mol_result_alt)
    show ?thesis
    proof (cases "py_int (str_split (lines ! nat i) ! 1)")
      case None
      then show ?thesis using Cons.prems(2) g alt
        by (simp add: collect_mol_ids_Cons del: collect_mol_ids.simps)
    next
      case (Some m)
      have "collect_mol_ids lines (acc @ [m]) rest = Inr ids"
        using Cons.prems(2) g alt Some
        by (simp add: collect_mol_ids_Cons del: collect_mol_ids.simps)
      from Cons.IH [OF v this] show ?thesis using True Some by simp
    qed
  qed
qed

lemma collect_mol_ids_none:
  assumes "\<forall>i\<in>set idxs. 0 \<le> i \<and> i < int (length lines)"
    and "\<forall>i\<in>set idxs. \<not> (is_record (lines ! nat i) \<and> 3 \<le> length (str_split (lines ! nat i)))"
  shows "collect_mol_ids lines acc idxs = Inr acc"
  using assms
proof (induction idxs)
  case Nil
  then show ?case by simp
next
  case (Cons i rest)
  have g: "getitem lines i = Inr (lines ! nat i)"
    using Cons.prems(1) by (simp add: getitem_nonneg)
  have m: "mol_result (lines ! nat i) = Inr None"
    using Cons.prems(2) by (auto simp: mol_result_alt)
  show ?case using Cons g m
    by (simp add: collect_mol_ids_Cons del: collect_mol_ids.simps)
qed

lemma fold_max_Max: "fold max ms m = Max (insert m (set ms))"
  using Max.set_eq_fold [of m ms] by simp

lemma infer_success:
  assumes "infer_chain_length_and_count lines s e = Inr (cl, nc)"
  shows "\<exists>ids. collect_mol_ids lines [] (py_range s e) = Inr ids \<and> ids \<noteq> []
           \<and> nc = Max (set ids) \<and> nc \<noteq> 0 \<and> (e - s) mod nc = 0 \<and> cl = (e - s) div nc"
  using assms
  by (auto simp: infer_chain_length_and_count_def Let_def fold_max_Max
      split: sum.splits list.splits if_splits)

lemma infer_of_ids:
  assumes "collect_mol_ids lines [] (py_range s e) = Inr ids" "ids \<noteq> []"
  shows "infer_chain_length_and_count lines s e =
           (if Max (set ids) = 0 then Inl ZeroDivisionError
            else if (e - s) mod Max (set ids) \<noteq> 0 then Inl IndivisibleChainCount
            else Inr ((e - s) div Max (set ids), Max (set ids)))"
proof -
  obtain m ms where ids: "ids = m # ms" using assms(2) by (cases ids) auto
  have "fold max ms m = Max (set ids)" unfolding ids by (simp add: fold_max_Max)
  then show ?thesis using assms(1) ids
    by (simp add: infer_chain_length_and_count_def Let_def)
qed

lemma infer_empty_iff:
  "infer_chain_length_and_count lines s e = Inl EmptyBlock \<longleftrightarrow>
     collect_mol_ids lines [] (py_range s e) = Inr [] \<or>
     collect_mol_ids lines [] (py_range s e) = Inl EmptyBlock"
  by (auto simp: infer_chain_length_and_count_def Let_def
      split: sum.splits list.splits if_splits)

subsection \<open>Block locator\<close>

lemma find_header_None: "find_header n lines = None \<longleftrightarrow> (\<forall>l\<in>set lines. \<not> is_header l)"
  by (induction lines arbitrary: n) (auto simp: is_header_def)

lemma find_header_first:
  assumes "k < length lines" "is_header (lines ! k)" "\<forall>j<k. \<not> is_header (lines ! j)"
  shows "find_header n lines = Some (n + k)"
  using assms
proof (induction lines arbitrary: n k)
  case Nil
  then show ?case by simp
next
  case (Cons l ls)
  show ?case
  proof (cases k)
    case 0
    then show ?thesis using Cons.prems by (simp add: is_header_def)
  next
    case (Suc k')
    have "\<not> is_header l" using Cons.prems(3) Suc by auto
    moreover have "find_header (Suc n) ls = Some (Suc n + k')"
    proof (rule Cons.IH)
      show "k' < length ls" using Cons.prems(1) Suc by simp
      show "is_header (ls ! k')" using Cons.prems(2) Suc by simp
      show "\<forall>j<k'. \<not> is_header (ls ! j)" using Cons.prems(3) Suc by auto
    qed
    ultimately show ?thesis using Suc by (simp add: is_header_def)
  qed
qed

lemma find_header_Some:
  "find_header n lines = Some m \<Longrightarrow>
     \<exists>k<length lines. m = n + k \<and> is_header (lines ! k) \<and> (\<forall>j<k. \<not> is_header (lines ! j))"
proof (induction lines arbitrary: n)
  case Nil
  then show ?case by simp
next
  case (Cons l ls)
  show ?case
  proof (cases "is_header l")
    case True
    then have "m = n" using Cons.prems by (simp add: is_header_def)
    then show ?thesis using True by (intro exI [of _ 0]) simp
  next
    case False
    then have "find_header (Suc n) ls = Some m" using Cons.prems by (simp add: is_header_def)
    from Cons.IH [OF this] obtain k where k: "k < length ls" "m = Suc n + k"
      "is_header (ls ! k)" "\<forall>j<k. \<not> is_header (ls ! j)" by blast
    have "\<forall>j<Suc k. \<not> is_header ((l # ls) ! j)"
      using False k(4) by (auto simp: less_Suc_eq_0_disj)
    then show ?thesis using k by (intro exI [of _ "Suc k"]) simp
  qed
qed

lemma find_atoms_block_range:
  assumes "find_atoms_block lines natoms = Inr (s, e)"
  shows "2 \<le> s \<and> e \<le> int (length lines) \<and> e = s + natoms"
  using assms
  by (auto simp: find_atoms_block_def Let_def split: option.splits if_splits)

lemma block_indices_valid:
  assumes "0 \<le> s" "e \<le> int (length lines)"
  shows "\<forall>i\<in>set (py_range s e). 0 \<le> i \<and> i < int (length lines)"
  using assms by (auto simp: set_py_range)

subsection \<open>The remapper never divides by zero when the chain length is not zero\<close>

lemma line_result_no_zero_division:
  "cl \<noteq> 0 \<Longrightarrow> line_result cl raw \<noteq> Inl ZeroDivisionError"
  by (auto simp: line_result_def split: option.splits)

lemma getitem_error: "getitem xs i = Inl e \<Longrightarrow> e = IndexError"
  by (auto simp: getitem_def split: option.splits)

lemma setitem_error: "setitem xs i v = Inl e \<Longrightarrow> e = IndexError"
  by (auto simp: setitem_def split: option.splits)

lemma remap_loop_no_zero_division:
  "cl \<noteq> 0 \<Longrightarrow> remap_loop cl lines nl idxs \<noteq> Inl ZeroDivisionError"
proof (induction idxs arbitrary: nl)
  case Nil
  then show ?case by simp
next
  case (Cons i rest)
  show ?case
    using Cons.IH [OF Cons.prems] line_result_no_zero_division [OF Cons.prems]
    by (auto simp: remap_loop_Cons simp del: remap_loop.simps
        split: sum.splits option.splits dest: getitem_error setitem_error)
qed

subsection \<open>Splitting a range\<close>

lemma py_range_split:
  assumes "a \<le> i" "i < b"
  shows "py_range a b = py_range a i @ i # py_range (i + 1) b"
proof (rule nth_equalityI)
  show "length (py_range a b) = length (py_range a i @ i # py_range (i + 1) b)"
    using assms by (simp add: length_py_range)
next
  fix k assume "k < length (py_range a b)"
  then have k: "k < nat (b - a)" by (simp add: length_py_range)
  consider "k < nat (i - a)" | "k = nat (i - a)" | "nat (i - a) < k" by linarith
  then show "py_range a b ! k = (py_range a i @ i # py_range (i + 1) b) ! k"
  proof cases
    case 1
    then show ?thesis using k by (simp add: nth_append length_py_range nth_py_range)
  next
    case 2
    then show ?thesis using k assms by (simp add: nth_append length_py_range nth_py_range)
  next
    case 3
    then have "k - nat (i - a) - 1 < nat (b - (i + 1))" using k assms by linarith
    then have "py_range (i + 1) b ! (k - nat (i - a) - 1) = i + 1 + int (k - nat (i - a) - 1)"
      by (rule nth_py_range)
    also have "\<dots> = a + int k" using 3 assms by linarith
    finally show ?thesis using 3 k
      by (simp add: nth_append length_py_range nth_py_range nth_Cons')
  qed
qed

lemma py_range_decomp:
  assumes "py_range a b = pre @ i # post"
  shows "a \<le> i \<and> i < b \<and> set pre = {j. a \<le> j \<and> j < i}"
proof -
  have "i \<in> set (py_range a b)" using assms by simp
  then have ab: "a \<le> i" "i < b" by (simp_all add: set_py_range)
  have l: "length pre < nat (b - a)"
    using arg_cong [OF assms, of length] by (simp add: length_py_range)
  have "py_range a b ! length pre = i" using assms by simp
  then have i: "i = a + int (length pre)" using l by (simp add: nth_py_range)
  have "pre = py_range a i"
  proof (rule nth_equalityI)
    show "length pre = length (py_range a i)" using i by (simp add: length_py_range)
  next
    fix k assume k: "k < length pre"
    have "pre ! k = py_range a b ! k" using k assms by (simp add: nth_append)
    also have "\<dots> = a + int k" using k l by (simp add: nth_py_range)
    also have "\<dots> = py_range a i ! k" using k i by (simp add: nth_py_range)
    finally show "pre ! k = py_range a i ! k" .
  qed
  then have "set pre = {j. a \<le> j \<and> j < i}" using set_py_range [of _ a i] by auto
  then show ?thesis using ab by simp
qed

section \<open>The example file, stage by stage\<close>

lemma example_parse: "parse_num_atoms example_doc = Inr 4"
  by code_simp

lemma example_find: "find_atoms_block example_doc 4 = Inr (4, 8)"
  by code_simp

lemma example_infer: "infer_chain_length_and_count example_doc 4 8 = Inr (2, 2)"
  by code_simp

lemma example_remap: "remap_to_acag30 example_doc 4 8 2 = Inr example_out"
  by code_simp

section \<open>Properties\<close>

text \<open>
  C7.  The block locator returns the range that starts two lines after the first line
  whose stripped text starts with \<open>Atoms\<close> and that spans \<open>natoms\<close> lines; without such a
  line it fails with MissingSection; with one, it fails with TruncatedDocument exactly
  when the end of the range exceeds the number of lines of the document.
\<close>

theorem find_atoms_block_spec:
  "((\<forall>l\<in>set lines. \<not> is_header l) \<longrightarrow> find_atoms_block lines natoms = Inl MissingSection) \<and>
   (\<forall>k<length lines. is_header (lines ! k) \<and> (\<forall>j<k. \<not> is_header (lines ! j)) \<longrightarrow>
      find_atoms_block lines natoms =
        (if int k + 2 + natoms > int (length lines) then Inl TruncatedDocument
         else Inr (int k + 2, int k + 2 + natoms)))"
proof (intro conjI impI allI)
  assume "\<forall>l\<in>set lines. \<not> is_header l"
  then have "find_header 0 lines = None" by (simp add: find_header_None)
  then show "find_atoms_block lines natoms = Inl MissingSection"
    by (simp add: find_atoms_block_def)
next
  fix k
  assume k: "k < length lines"
    and "is_header (lines ! k) \<and> (\<forall>j<k. \<not> is_header (lines ! j))"
  then have "find_header 0 lines = Some (0 + k)"
    using find_header_first [of k lines 0] by blast
  then show "find_atoms_block lines natoms =
        (if int k + 2 + natoms > int (length lines) then Inl TruncatedDocument
         else Inr (int k + 2, int k + 2 + natoms))"
    by (simp add: find_atoms_block_def Let_def)
qed

theorem find_atoms_block_spec_witness:
  "is_header (example_doc ! 2) \<and> \<not> is_header (example_doc ! 0) \<and> \<not> is_header (example_doc ! 1)
   \<and> find_atoms_block example_doc 4 = Inr (4, 8)
   \<and> find_atoms_block example_doc 5 = Inl TruncatedDocument
   \<and> \<not> is_header ''4 atoms\<newline>''
   \<and> find_atoms_block [''4 atoms\<newline>''] 4 = Inl MissingSection"
proof -
  have h2: "is_header (example_doc ! 2)" by code_simp
  have h0: "\<not> is_header (example_doc ! 0)" by code_simp
  have h1: "\<not> is_header (example_doc ! 1)" by code_simp
  have len: "length example_doc = 8" by code_simp
  have before: "\<forall>j<2. \<not> is_header (example_doc ! j)"
  proof (intro allI impI)
    fix j :: nat assume "j < 2"
    then have "j = 0 \<or> j = 1" by arith
    then show "\<not> is_header (example_doc ! j)" using h0 h1 by auto
  qed
  have k: "(2::nat) < length example_doc" using len by simp
  have a: "find_atoms_block example_doc 4 = Inr (4, 8)"
    using find_atoms_block_spec [of example_doc 4, THEN conjunct2, rule_format, of 2]
      k h2 before len by simp
  have b: "find_atoms_block example_doc 5 = Inl TruncatedDocument"
    using find_atoms_block_spec [of example_doc 5, THEN conjunct2, rule_format, of 2]
      k h2 before len by simp
  have n: "\<not> is_header ''4 atoms\<newline>''" by code_simp
  have c: "find_atoms_block [''4 atoms\<newline>''] 4 = Inl MissingSection"
    using find_atoms_block_spec [of "[''4 atoms\<newline>'']" 4, THEN conjunct1] n by simp
  show ?thesis using h2 h0 h1 a b n c by simp
qed

text \<open>
  C9.  When the header scan, the block locator, chain inference and the remapper all
  succeed on a document, the remapper's result has as many lines as the document.
\<close>

theorem remap_preserves_line_count:
  assumes "parse_num_atoms lines = Inr natoms"
    and "find_atoms_block lines natoms = Inr (atoms_start, atoms_end)"
    and "infer_chain_length_and_count lines atoms_start atoms_end = Inr (chain_len, n_chains)"
    and "remap_to_acag30 lines atoms_start atoms_end chain_len = Inr new_lines"
  shows "length new_lines = length lines"
  using assms(4) unfolding remap_to_acag30_def by (rule remap_loop_length)

theorem remap_preserves_line_count_witness:
  "parse_num_atoms example_doc = Inr 4
   \<and> find_atoms_block example_doc 4 = Inr (4, 8)
   \<and> infer_chain_length_and_count example_doc 4 8 = Inr (2, 2)
   \<and> remap_to_acag30 example_doc 4 8 2 = Inr example_out
   \<and> length example_out = length example_doc"
  using remap_preserves_line_count [OF example_parse example_find example_infer example_remap]
    example_parse example_find example_infer example_remap
  by simp

lemma remap_block:
  assumes "0 \<le> s" "e \<le> int (length lines)"
    and "remap_to_acag30 lines s e cl = Inr out"
    and "p < length lines"
  shows "out ! p = (if s \<le> int p \<and> int p < e then remapped cl (lines ! p) (lines ! p) else lines ! p)"
    and "s \<le> int p \<and> int p < e \<Longrightarrow> \<exists>r. line_result cl (lines ! p) = Inr r"
proof -
  have v: "\<forall>i\<in>set (py_range s e). 0 \<le> i \<and> i < int (length lines)"
    using assms(1,2) by (rule block_indices_valid)
  have run: "remap_loop cl lines lines (py_range s e) = Inr out"
    using assms(3) by (simp add: remap_to_acag30_def)
  show "out ! p = (if s \<le> int p \<and> int p < e then remapped cl (lines ! p) (lines ! p) else lines ! p)"
    using remap_loop_nth [OF run v refl assms(4)] by (simp add: set_py_range)
  assume "s \<le> int p \<and> int p < e"
  then have "int p \<in> set (py_range s e)" by (simp add: set_py_range)
  then have "\<exists>r. line_result cl (lines ! nat (int p)) = Inr r"
    using remap_loop_all_ok [OF run v] by blast
  then show "\<exists>r. line_result cl (lines ! p) = Inr r" by simp
qed

text \<open>
  C1.  When all four stages succeed, every line of the Atoms block that is neither blank
  nor comment-prefixed has an integer in field 0, and field 2 of the line the remapper
  puts in its place is the text of \<open>pattern[((atom_id - 1) mod chain_len) mod 4]\<close> with
  \<open>pattern = [1, 2, 1, 3]\<close>, \<open>atom_id\<close> that integer and \<open>chain_len\<close> the chain length
  inferred from the block.
\<close>

theorem remap_assigns_pattern_type:
  assumes "parse_num_atoms lines = Inr natoms"
    and "find_atoms_block lines natoms = Inr (atoms_start, atoms_end)"
    and "infer_chain_length_and_count lines atoms_start atoms_end = Inr (chain_len, n_chains)"
    and "remap_to_acag30 lines atoms_start atoms_end chain_len = Inr new_lines"
    and "atoms_start \<le> i" and "i < atoms_end"
    and "is_record (lines ! nat i)"
  shows "\<exists>atom_id. py_int (str_split (lines ! nat i) ! 0) = Some atom_id \<and>
           str_split (new_lines ! nat i) ! 2 =
             py_str ([1, 2, 1, 3] ! nat (((atom_id - 1) mod chain_len) mod 4))"
proof -
  have rng: "2 \<le> atoms_start" "atoms_end \<le> int (length lines)"
    using find_atoms_block_range [OF assms(2)] by simp_all
  have s0: "0 \<le> atoms_start" using rng(1) by simp
  have p: "nat i < length lines" using rng assms(5,6) by linarith
  have inb: "atoms_start \<le> int (nat i) \<and> int (nat i) < atoms_end"
    using rng assms(5,6) by simp
  obtain r where r: "line_result chain_len (lines ! nat i) = Inr r"
    using remap_block(2) [OF s0 rng(2) assms(4) p inb] by blast
  from line_result_rewrite [OF r assms(7)]
  obtain atom_id where len: "6 \<le> length (str_split (lines ! nat i))"
    and a: "py_int (str_split (lines ! nat i) ! 0) = Some atom_id"
    and v: "r = Some (str_join '' '' ((str_split (lines ! nat i))
                  [2 := py_str (base_pattern ! nat (((atom_id - 1) mod chain_len) mod pattern_len))])
                  @ ''\<newline>'')" by blast
  let ?t = "py_str (base_pattern ! nat (((atom_id - 1) mod chain_len) mod pattern_len))"
  have "new_lines ! nat i = remapped chain_len (lines ! nat i) (lines ! nat i)"
    using remap_block(1) [OF s0 rng(2) assms(4) p] inb by simp
  also have "\<dots> = str_join '' '' ((str_split (lines ! nat i))[2 := ?t]) @ ''\<newline>''"
    using r v by (simp add: remapped_def)
  finally have "str_split (new_lines ! nat i) = (str_split (lines ! nat i))[2 := ?t]"
    using split_rewritten [of "lines ! nat i" "(atom_id - 1) mod chain_len"] len by simp
  then have "str_split (new_lines ! nat i) ! 2 = ?t" using len by simp
  then show ?thesis using a by (simp add: base_pattern_def pattern_len_4)
qed

theorem remap_assigns_pattern_type_witness:
  "is_record (example_doc ! nat 6)
   \<and> (\<exists>atom_id. py_int (str_split (example_doc ! nat 6) ! 0) = Some atom_id \<and>
           str_split (example_out ! nat 6) ! 2 =
             py_str ([1, 2, 1, 3] ! nat (((atom_id - 1) mod 2) mod 4)))"
proof -
  have rec: "is_record (example_doc ! nat 6)" by code_simp
  show ?thesis
    using remap_assigns_pattern_type
      [OF example_parse example_find example_infer example_remap _ _ rec] rec
    by simp
qed

text \<open>
  C2.  When all four stages succeed, the remapper's result has the length of the document;
  it equals the document at every line outside the Atoms block and at every blank or
  comment-prefixed line inside it; every other line of the block is replaced by its own
  fields, field 2 apart, joined by single spaces and followed by a newline, and splits
  into the same fields as before at every index but 2.
\<close>

theorem remap_changes_only_type_field:
  assumes "parse_num_atoms lines = Inr natoms"
    and "find_atoms_block lines natoms = Inr (atoms_start, atoms_end)"
    and "infer_chain_length_and_count lines atoms_start atoms_end = Inr (chain_len, n_chains)"
    and "remap_to_acag30 lines atoms_start atoms_end chain_len = Inr new_lines"
  shows "length new_lines = length lines \<and>
    (\<forall>p<length lines.
       (\<not> (atoms_start \<le> int p \<and> int p < atoms_end) \<longrightarrow> new_lines ! p = lines ! p) \<and>
       (atoms_start \<le> int p \<and> int p < atoms_end \<and> \<not> is_record (lines ! p)
          \<longrightarrow> new_lines ! p = lines ! p) \<and>
       (atoms_start \<le> int p \<and> int p < atoms_end \<and> is_record (lines ! p) \<longrightarrow>
          (\<exists>t. new_lines ! p = str_join '' '' ((str_split (lines ! p))[2 := t]) @ ''\<newline>'')
          \<and> length (str_split (new_lines ! p)) = length (str_split (lines ! p))
          \<and> (\<forall>k<length (str_split (lines ! p)). k \<noteq> 2 \<longrightarrow>
                str_split (new_lines ! p) ! k = str_split (lines ! p) ! k)))"
proof (intro conjI allI impI)
  show "length new_lines = length lines"
    using assms(4) unfolding remap_to_acag30_def by (rule remap_loop_length)
next
  fix p assume p: "p < length lines"
  have rng: "2 \<le> atoms_start" "atoms_end \<le> int (length lines)"
    using find_atoms_block_range [OF assms(2)] by simp_all
  have s0: "0 \<le> atoms_start" using rng(1) by simp
  note nth = remap_block(1) [OF s0 rng(2) assms(4) p]
  note ok = remap_block(2) [OF s0 rng(2) assms(4) p]
  {
    assume "\<not> (atoms_start \<le> int p \<and> int p < atoms_end)"
    then show "new_lines ! p = lines ! p" using nth by auto
  }
  {
    assume h: "atoms_start \<le> int p \<and> int p < atoms_end \<and> \<not> is_record (lines ! p)"
    then have "line_result chain_len (lines ! p) = Inr None" by (simp add: line_result_skip)
    then show "new_lines ! p = lines ! p" using nth h by (simp add: remapped_def)
  }
  {
    assume h: "atoms_start \<le> int p \<and> int p < atoms_end \<and> is_record (lines ! p)"
    then obtain r where r: "line_result chain_len (lines ! p) = Inr r" using ok by blast
    from line_result_rewrite [OF r] h
    obtain atom_id where len: "6 \<le> length (str_split (lines ! p))"
      and v: "r = Some (str_join '' '' ((str_split (lines ! p))
                  [2 := py_str (base_pattern ! nat (((atom_id - 1) mod chain_len) mod pattern_len))])
                  @ ''\<newline>'')" by blast
    let ?t = "py_str (base_pattern ! nat (((atom_id - 1) mod chain_len) mod pattern_len))"
    have eq: "new_lines ! p = str_join '' '' ((str_split (lines ! p))[2 := ?t]) @ ''\<newline>''"
      using nth h r v by (simp add: remapped_def)
    have sp: "str_split (new_lines ! p) = (str_split (lines ! p))[2 := ?t]"
      unfolding eq using split_rewritten [of "lines ! p" "(atom_id - 1) mod chain_len"] len
      by simp
    show "\<exists>t. new_lines ! p = str_join '' '' ((str_split (lines ! p))[2 := t]) @ ''\<newline>''"
      using eq by blast
    show "length (str_split (new_lines ! p)) = length (str_split (lines ! p))"
      using sp by simp
    fix k assume "k < length (str_split (lines ! p))" "k \<noteq> 2"
    then show "str_split (new_lines ! p) ! k = str_split (lines ! p) ! k"
      using sp by simp
  }
qed

theorem remap_changes_only_type_field_witness:
  "length example_out = length example_doc
   \<and> example_out ! 0 = example_doc ! 0
   \<and> \<not> is_record (example_doc ! 5) \<and> example_out ! 5 = example_doc ! 5
   \<and> is_record (example_doc ! 6)
   \<and> (\<exists>t. example_out ! 6 = str_join '' '' ((str_split (example_doc ! 6))[2 := t]) @ ''\<newline>'')
   \<and> str_split (example_out ! 6) ! 3 = str_split (example_doc ! 6) ! 3"
proof -
  note T = remap_changes_only_type_field
    [OF example_parse example_find example_infer example_remap]
  have L: "length example_doc = 8" by code_simp
  have c: "\<not> is_record (example_doc ! 5)" by code_simp
  have r: "is_record (example_doc ! 6)" by code_simp
  have n: "length (str_split (example_doc ! 6)) = 6" by code_simp
  have 0: "example_out ! 0 = example_doc ! 0"
    using T [THEN conjunct2, rule_format, of 0] L by simp
  have 5: "example_out ! 5 = example_doc ! 5"
    using T [THEN conjunct2, rule_format, of 5] L c by simp
  have 6: "(\<exists>t. example_out ! 6 = str_join '' '' ((str_split (example_doc ! 6))[2 := t]) @ ''\<newline>'')
     \<and> (\<forall>k<length (str_split (example_doc ! 6)). k \<noteq> 2 \<longrightarrow>
                str_split (example_out ! 6) ! k = str_split (example_doc ! 6) ! k)"
    using T [THEN conjunct2, rule_format, of 6] L r by simp
  have 63: "str_split (example_out ! 6) ! 3 = str_split (example_doc ! 6) ! 3"
    using 6 [THEN conjunct2, rule_format, of 3] n by simp
  show ?thesis using T [THEN conjunct1] 0 5 c r 6 [THEN conjunct1] 63 by simp
qed

text \<open>
  C8.  When all four stages succeed, chain inference over the same block of the remapper's
  result returns the chain length and the chain count it returned on the document.
\<close>

theorem inference_stable_under_remap:
  assumes "parse_num_atoms lines = Inr natoms"
    and "find_atoms_block lines natoms = Inr (atoms_start, atoms_end)"
    and "infer_chain_length_and_count lines atoms_start atoms_end = Inr (chain_len, n_chains)"
    and "remap_to_acag30 lines atoms_start atoms_end chain_len = Inr new_lines"
  shows "infer_chain_length_and_count new_lines atoms_start atoms_end = Inr (chain_len, n_chains)"
proof -
  have rng: "2 \<le> atoms_start" "atoms_end \<le> int (length lines)"
    using find_atoms_block_range [OF assms(2)] by simp_all
  have s0: "0 \<le> atoms_start" using rng(1) by simp
  have v: "\<forall>i\<in>set (py_range atoms_start atoms_end). 0 \<le> i \<and> i < int (length lines)"
    using s0 rng(2) by (rule block_indices_valid)
  have len: "length new_lines = length lines"
    using assms(4) unfolding remap_to_acag30_def by (rule remap_loop_length)
  have same: "\<forall>i\<in>set (py_range atoms_start atoms_end).
                mol_result (new_lines ! nat i) = mol_result (lines ! nat i)"
  proof
    fix i assume i: "i \<in> set (py_range atoms_start atoms_end)"
    then have p: "nat i < length lines" using v by auto
    have inb: "atoms_start \<le> int (nat i) \<and> int (nat i) < atoms_end"
      using i s0 by (simp add: set_py_range)
    have "new_lines ! nat i = remapped chain_len (lines ! nat i) (lines ! nat i)"
      using remap_block(1) [OF s0 rng(2) assms(4) p] inb by simp
    moreover have "\<exists>r. line_result chain_len (lines ! nat i) = Inr r"
      using remap_block(2) [OF s0 rng(2) assms(4) p inb] .
    ultimately show "mol_result (new_lines ! nat i) = mol_result (lines ! nat i)"
      by (simp add: remapped_mol_result)
  qed
  have "collect_mol_ids new_lines [] (py_range atoms_start atoms_end)
        = collect_mol_ids lines [] (py_range atoms_start atoms_end)"
    using v len same by (rule collect_mol_ids_cong)
  then have "infer_chain_length_and_count new_lines atoms_start atoms_end
             = infer_chain_length_and_count lines atoms_start atoms_end"
    by (simp add: infer_chain_length_and_count_def)
  then show ?thesis using assms(3) by simp
qed

theorem inference_stable_under_remap_witness:
  "parse_num_atoms example_doc = Inr 4
   \<and> find_atoms_block example_doc 4 = Inr (4, 8)
   \<and> infer_chain_length_and_count example_doc 4 8 = Inr (2, 2)
   \<and> remap_to_acag30 example_doc 4 8 2 = Inr example_out
   \<and> infer_chain_length_and_count example_out 4 8 = Inr (2, 2)"
  using inference_stable_under_remap [OF example_parse example_find example_infer example_remap]
    example_parse example_find example_infer example_remap
  by simp

text \<open>
  C10.  When chain inference succeeds and every molecule id it collected is at least 1,
  the chain count is at least 1, is at most the block size and divides it, the chain
  length is at least 1, and the remapper run with that chain length does not fail by a
  division by zero.
\<close>

theorem chain_len_positive:
  assumes "infer_chain_length_and_count lines atoms_start atoms_end = Inr (chain_len, n_chains)"
    and "collect_mol_ids lines [] (py_range atoms_start atoms_end) = Inr mol_ids"
    and "\<forall>m\<in>set mol_ids. 1 \<le> m"
  shows "1 \<le> n_chains \<and> n_chains \<le> atoms_end - atoms_start
         \<and> n_chains dvd atoms_end - atoms_start \<and> 1 \<le> chain_len
         \<and> remap_to_acag30 lines atoms_start atoms_end chain_len \<noteq> Inl ZeroDivisionError"
proof -
  let ?n = "atoms_end - atoms_start"
  from infer_success [OF assms(1)] assms(2)
  have ne: "mol_ids \<noteq> []" and nc: "n_chains = Max (set mol_ids)"
    and md: "?n mod n_chains = 0" and cl: "chain_len = ?n div n_chains"
    by auto
  have "Max (set mol_ids) \<in> set mol_ids" using ne by (intro Max_in) simp_all
  then have nc1: "1 \<le> n_chains" using assms(3) nc by simp
  have "py_range atoms_start atoms_end \<noteq> []"
    using assms(2) ne by auto
  then have pos: "0 < ?n" by (simp add: py_range_def)
  have dv: "n_chains dvd ?n" using md by (simp add: dvd_eq_mod_eq_0)
  have le: "n_chains \<le> ?n" using dv pos by (rule zdvd_imp_le)
  have "0 < ?n div n_chains" using nc1 le by (simp add: pos_imp_zdiv_pos_iff)
  then have cl1: "1 \<le> chain_len" using cl by simp
  then have "chain_len \<noteq> 0" by simp
  then have "remap_loop chain_len lines lines (py_range atoms_start atoms_end)
               \<noteq> Inl ZeroDivisionError"
    by (rule remap_loop_no_zero_division)
  then show ?thesis using nc1 le dv cl1 by (simp add: remap_to_acag30_def)
qed

lemma example_collect: "collect_mol_ids example_doc [] (py_range 4 8) = Inr [1, 1, 2]"
  by code_simp

theorem chain_len_positive_witness:
  "infer_chain_length_and_count example_doc 4 8 = Inr (2, 2)
   \<and> collect_mol_ids example_doc [] (py_range 4 8) = Inr [1, 1, 2]
   \<and> (1::int) \<le> 2 \<and> (2::int) \<le> 8 - 4 \<and> (2::int) dvd 8 - 4
   \<and> remap_to_acag30 example_doc 4 8 2 \<noteq> Inl ZeroDivisionError"
proof -
  have m: "\<forall>m\<in>set [1, 1, 2 :: int]. 1 \<le> m" by simp
  show ?thesis
    using chain_len_positive [OF example_infer example_collect m]
      example_infer example_collect
    by simp
qed

subsection \<open>The program as a whole\<close>

lemma main_failure_keeps_files:
  "fst (main input output w) = Inl e \<Longrightarrow> files (snd (main input output w)) = files w"
  by (auto simp: main_def Let_def split: option.splits sum.splits prod.splits)

lemma main_remap_failure:
  assumes "files w input = Some text"
    and "parse_num_atoms (splitlines text) = Inr natoms"
    and "find_atoms_block (splitlines text) natoms = Inr (s, t)"
    and "infer_chain_length_and_count (splitlines text) s t = Inr (cl, nc)"
    and "remap_to_acag30 (splitlines text) s t cl = Inl e"
  shows "fst (main input output w) = Inl e"
  using assms by (simp add: main_def Let_def)

lemma example_splitlines: "splitlines (concat example_doc) = example_doc"
  by code_simp

lemma odd_splitlines: "splitlines (concat odd_doc) = odd_doc"
  by code_simp

lemma odd_parse: "parse_num_atoms odd_doc = Inr 3"
  by code_simp

lemma odd_find: "find_atoms_block odd_doc 3 = Inr (3, 6)"
  by code_simp

lemma odd_infer: "infer_chain_length_and_count odd_doc 3 6 = Inl IndivisibleChainCount"
  by code_simp

text \<open>
  C3.  A run that fails leaves the file store as it found it.  If the input file is
  missing, or the header scan, the block locator, chain inference or the remapper fails,
  the run fails with that error.  Only when all four stages have succeeded does the run
  succeed, and then the store differs from the initial one at most at the output path,
  which holds the concatenation of the remapper's lines; so a store that has changed
  tells that all four stages succeeded.
\<close>

theorem main_writes_only_after_all_stages:
  "(\<forall>e. fst (main input output w) = Inl e \<longrightarrow> files (snd (main input output w)) = files w)
   \<and> (files w input = None \<longrightarrow> fst (main input output w) = Inl FileNotFoundError)
   \<and> (\<forall>text lines. files w input = Some text \<and> lines = splitlines text \<longrightarrow>
        (\<forall>e. parse_num_atoms lines = Inl e \<longrightarrow> fst (main input output w) = Inl e) \<and>
        (\<forall>natoms. parse_num_atoms lines = Inr natoms \<longrightarrow>
           (\<forall>e. find_atoms_block lines natoms = Inl e \<longrightarrow> fst (main input output w) = Inl e) \<and>
           (\<forall>s t. find_atoms_block lines natoms = Inr (s, t) \<longrightarrow>
              (\<forall>e. infer_chain_length_and_count lines s t = Inl e
                    \<longrightarrow> fst (main input output w) = Inl e) \<and>
              (\<forall>cl nc. infer_chain_length_and_count lines s t = Inr (cl, nc) \<longrightarrow>
                 (\<forall>e. remap_to_acag30 lines s t cl = Inl e
                       \<longrightarrow> fst (main input output w) = Inl e) \<and>
                 (\<forall>new_lines. remap_to_acag30 lines s t cl = Inr new_lines \<longrightarrow>
                    fst (main input output w) = Inr () \<and>
                    files (snd (main input output w)) = (files w)(output \<mapsto> concat new_lines))))))
   \<and> (files (snd (main input output w)) \<noteq> files w \<longrightarrow>
        (\<exists>text natoms s t cl nc new_lines.
           files w input = Some text
           \<and> parse_num_atoms (splitlines text) = Inr natoms
           \<and> find_atoms_block (splitlines text) natoms = Inr (s, t)
           \<and> infer_chain_length_and_count (splitlines text) s t = Inr (cl, nc)
           \<and> remap_to_acag30 (splitlines text) s t cl = Inr new_lines))"
  by (auto simp: main_def Let_def split: option.splits sum.splits prod.splits)

theorem main_writes_only_after_all_stages_witness:
  "fst (main ''in.dat'' ''out.dat'' (world_with ''in.dat'' (concat odd_doc)))
     = Inl IndivisibleChainCount
   \<and> files (snd (main ''in.dat'' ''out.dat'' (world_with ''in.dat'' (concat odd_doc))))
     = files (world_with ''in.dat'' (concat odd_doc))
   \<and> fst (main ''in.dat'' ''out.dat'' (world_with ''in.dat'' (concat example_doc))) = Inr ()
   \<and> files (snd (main ''in.dat'' ''out.dat'' (world_with ''in.dat'' (concat example_doc))))
     = (files (world_with ''in.dat'' (concat example_doc)))(''out.dat'' \<mapsto> concat example_out)"
proof -
  let ?w = "world_with ''in.dat'' (concat odd_doc)"
  let ?v = "world_with ''in.dat'' (concat example_doc)"
  note T = main_writes_only_after_all_stages [of "''in.dat''" "''out.dat''" ?w]
  note U = main_writes_only_after_all_stages [of "''in.dat''" "''out.dat''" ?v]
  have fw: "files ?w ''in.dat'' = Some (concat odd_doc)" by (simp add: world_with_def)
  have fv: "files ?v ''in.dat'' = Some (concat example_doc)" by (simp add: world_with_def)
  have a: "fst (main ''in.dat'' ''out.dat'' ?w) = Inl IndivisibleChainCount"
    using T [THEN conjunct2, THEN conjunct2, THEN conjunct1, rule_format,
        of "concat odd_doc" odd_doc, THEN conjunct2, rule_format, of 3,
        THEN conjunct2, rule_format, of 3 6, THEN conjunct1, rule_format,
        of IndivisibleChainCount]
      fw odd_splitlines odd_parse odd_find odd_infer by simp
  have b: "files (snd (main ''in.dat'' ''out.dat'' ?w)) = files ?w"
    using T [THEN conjunct1, rule_format, OF a] .
  have c: "fst (main ''in.dat'' ''out.dat'' ?v) = Inr () \<and>
           files (snd (main ''in.dat'' ''out.dat'' ?v)) = (files ?v)(''out.dat'' \<mapsto> concat example_out)"
    using U [THEN conjunct2, THEN conjunct2, THEN conjunct1, rule_format,
        of "concat example_doc" example_doc, THEN conjunct2, rule_format, of 4,
        THEN conjunct2, rule_format, of 4 8, THEN conjunct2, rule_format, of 2 2,
        THEN conjunct2, rule_format, of example_out]
      fv example_splitlines example_parse example_find example_infer example_remap by simp
  show ?thesis using a b c by simp
qed

text \<open>
  C4.  A block whose only molecule id is 0: the maximum is 0, the block size 1 is not a
  multiple of it, and chain inference stops with a division by zero where the
  divisibility error IndivisibleChainCount is due.
\<close>

theorem infer_zero_chain_count:
  "parse_num_atoms zero_mol_doc = Inr 1
   \<and> find_atoms_block zero_mol_doc 1 = Inr (3, 4)
   \<and> collect_mol_ids zero_mol_doc [] (py_range 3 4) = Inr [0]
   \<and> infer_chain_length_and_count zero_mol_doc 3 4 = Inl ZeroDivisionError"
proof -
  have "parse_num_atoms zero_mol_doc = Inr 1" by code_simp
  moreover have "find_atoms_block zero_mol_doc 1 = Inr (3, 4)" by code_simp
  moreover have "collect_mol_ids zero_mol_doc [] (py_range 3 4) = Inr [0]" by code_simp
  moreover have "infer_chain_length_and_count zero_mol_doc 3 4 = Inl ZeroDivisionError"
    by code_simp
  ultimately show ?thesis by simp
qed

lemma collect_mol_ids_error:
  "collect_mol_ids lines acc idxs = Inl e \<Longrightarrow> e = IndexError \<or> e = InvalidLiteral"
proof (induction idxs arbitrary: acc)
  case Nil
  then show ?case by simp
next
  case (Cons i rest)
  from Cons.prems show ?case
    by (auto simp: collect_mol_ids_Cons mol_result_def simp del: collect_mol_ids.simps
        split: sum.splits option.splits if_splits dest: getitem_error Cons.IH)
qed

lemma collect_mol_ids_succeeds_iff:
  assumes "\<forall>i\<in>set idxs. 0 \<le> i \<and> i < int (length lines)"
  shows "(\<exists>ids. collect_mol_ids lines acc idxs = Inr ids) \<longleftrightarrow>
         (\<forall>i\<in>set idxs. is_record (lines ! nat i) \<and> 3 \<le> length (str_split (lines ! nat i))
            \<longrightarrow> py_int (str_split (lines ! nat i) ! 1) \<noteq> None)"
  using assms
proof (induction idxs arbitrary: acc)
  case Nil
  then show ?case by simp
next
  case (Cons i rest)
  have g: "getitem lines i = Inr (lines ! nat i)"
    using Cons.prems by (simp add: getitem_nonneg)
  have v: "\<forall>i\<in>set rest. 0 \<le> i \<and> i < int (length lines)"
    using Cons.prems by simp
  note ih = Cons.IH [OF v]
  show ?case
  proof (cases "is_record (lines ! nat i) \<and> 3 \<le> length (str_split (lines ! nat i))")
    case False
    then have m: "mol_result (lines ! nat i) = Inr None" by (auto simp: mol_result_alt)
    have "collect_mol_ids lines acc (i # rest) = collect_mol_ids lines acc rest"
      using g m by (simp add: collect_mol_ids_Cons del: collect_mol_ids.simps)
    then show ?thesis using ih [of acc] False by auto
  next
    case True
    show ?thesis
    proof (cases "py_int (str_split (lines ! nat i) ! 1)")
      case None
      then have "mol_result (lines ! nat i) = Inl InvalidLiteral"
        using True by (simp add: mol_result_alt)
      then have "collect_mol_ids lines acc (i # rest) = Inl InvalidLiteral"
        using g by (simp add: collect_mol_ids_Cons del: collect_mol_ids.simps)
      then show ?thesis using True None by auto
    next
      case (Some m)
      then have "mol_result (lines ! nat i) = Inr (Some m)"
        using True by (simp add: mol_result_alt)
      then have "collect_mol_ids lines acc (i # rest) = collect_mol_ids lines (acc @ [m]) rest"
        using g by (simp add: collect_mol_ids_Cons del: collect_mol_ids.simps)
      then show ?thesis using ih [of "acc @ [m]"] Some by auto
    qed
  qed
qed

text \<open>
  C5, as the claim states it, fails: a block line that is neither blank nor
  comment-prefixed and whose second field is the integer 5 is skipped, because it has
  fewer than three fields, and inference reports an empty block.
\<close>

theorem inference_skips_two_field_line:
  "parse_num_atoms short_line_doc = Inr 1
   \<and> find_atoms_block short_line_doc 1 = Inr (3, 4)
   \<and> is_record (short_line_doc ! 3)
   \<and> py_int (str_split (short_line_doc ! 3) ! 1) = Some 5
   \<and> collect_mol_ids short_line_doc [] (py_range 3 4) = Inr []
   \<and> infer_chain_length_and_count short_line_doc 3 4 = Inl EmptyBlock"
proof -
  have "parse_num_atoms short_line_doc = Inr 1" by code_simp
  moreover have "find_atoms_block short_line_doc 1 = Inr (3, 4)" by code_simp
  moreover have "is_record (short_line_doc ! 3)" by code_simp
  moreover have "py_int (str_split (short_line_doc ! 3) ! 1) = Some 5" by code_simp
  moreover have "collect_mol_ids short_line_doc [] (py_range 3 4) = Inr []" by code_simp
  moreover have "infer_chain_length_and_count short_line_doc 3 4 = Inl EmptyBlock"
    by code_simp
  ultimately show ?thesis by simp
qed

text \<open>
  C5, amended.  Over a block inside the document, the lines chain inference skips are the
  blank lines, the comment-prefixed lines and the lines with fewer than three fields.
  Every other line contributes its second field parsed as an integer: the collection
  succeeds exactly when all those fields are integer literals, and its result lists
  their values in block order.  Inference fails with EmptyBlock exactly when the block
  has no contributing line.
\<close>

theorem inference_collects_mol_ids:
  assumes "0 \<le> atoms_start" and "atoms_end \<le> int (length lines)"
  shows
    "((\<exists>mol_ids. collect_mol_ids lines [] (py_range atoms_start atoms_end) = Inr mol_ids) \<longleftrightarrow>
        (\<forall>i. atoms_start \<le> i \<and> i < atoms_end \<and> is_record (lines ! nat i)
              \<and> 3 \<le> length (str_split (lines ! nat i))
           \<longrightarrow> py_int (str_split (lines ! nat i) ! 1) \<noteq> None))
     \<and> (\<forall>mol_ids. collect_mol_ids lines [] (py_range atoms_start atoms_end) = Inr mol_ids \<longrightarrow>
          map Some mol_ids =
            map (\<lambda>i. py_int (str_split (lines ! nat i) ! 1))
              (filter (\<lambda>i. is_record (lines ! nat i) \<and> 3 \<le> length (str_split (lines ! nat i)))
                 (py_range atoms_start atoms_end)))
     \<and> (infer_chain_length_and_count lines atoms_start atoms_end = Inl EmptyBlock \<longleftrightarrow>
          \<not> (\<exists>i. atoms_start \<le> i \<and> i < atoms_end \<and> is_record (lines ! nat i)
                  \<and> 3 \<le> length (str_split (lines ! nat i))))"
proof (intro conjI allI impI)
  let ?r = "py_range atoms_start atoms_end"
  let ?c = "\<lambda>i. is_record (lines ! nat i) \<and> 3 \<le> length (str_split (lines ! nat i))"
  have v: "\<forall>i\<in>set ?r. 0 \<le> i \<and> i < int (length lines)"
    using assms by (rule block_indices_valid)
  show "(\<exists>mol_ids. collect_mol_ids lines [] ?r = Inr mol_ids) \<longleftrightarrow>
        (\<forall>i. atoms_start \<le> i \<and> i < atoms_end \<and> is_record (lines ! nat i)
              \<and> 3 \<le> length (str_split (lines ! nat i))
           \<longrightarrow> py_int (str_split (lines ! nat i) ! 1) \<noteq> None)"
    unfolding collect_mol_ids_succeeds_iff [OF v, of "[]"] by (auto simp: set_py_range)
  {
    fix mol_ids assume "collect_mol_ids lines [] ?r = Inr mol_ids"
    from collect_mol_ids_ids [OF v this]
    show "map Some mol_ids = map (\<lambda>i. py_int (str_split (lines ! nat i) ! 1)) (filter ?c ?r)"
      by simp
  }
  have "infer_chain_length_and_count lines atoms_start atoms_end = Inl EmptyBlock
        \<longleftrightarrow> collect_mol_ids lines [] ?r = Inr []"
    using collect_mol_ids_error [of lines "[]" ?r EmptyBlock]
    by (auto simp: infer_empty_iff)
  also have "\<dots> \<longleftrightarrow> (\<forall>i\<in>set ?r. \<not> ?c i)"
  proof
    assume "collect_mol_ids lines [] ?r = Inr []"
    from collect_mol_ids_ids [OF v this] have "filter ?c ?r = []" by simp
    then show "\<forall>i\<in>set ?r. \<not> ?c i" by (simp add: filter_empty_conv)
  next
    assume "\<forall>i\<in>set ?r. \<not> ?c i"
    then show "collect_mol_ids lines [] ?r = Inr []"
      using collect_mol_ids_none [OF v] by blast
  qed
  finally show "infer_chain_length_and_count lines atoms_start atoms_end = Inl EmptyBlock \<longleftrightarrow>
          \<not> (\<exists>i. atoms_start \<le> i \<and> i < atoms_end \<and> is_record (lines ! nat i)
                  \<and> 3 \<le> length (str_split (lines ! nat i)))"
    by (auto simp: set_py_range)
qed

theorem inference_collects_mol_ids_witness:
  "(0::int) \<le> 4 \<and> 8 \<le> int (length example_doc)
   \<and> collect_mol_ids example_doc [] (py_range 4 8) = Inr [1, 1, 2]
   \<and> map Some [1, 1, 2] =
        map (\<lambda>i. py_int (str_split (example_doc ! nat i) ! 1))
          (filter (\<lambda>i. is_record (example_doc ! nat i)
                       \<and> 3 \<le> length (str_split (example_doc ! nat i))) (py_range 4 8))
   \<and> infer_chain_length_and_count example_doc 4 8 \<noteq> Inl EmptyBlock"
proof -
  have L: "8 \<le> int (length example_doc)" by code_simp
  have z: "(0::int) \<le> 4" by simp
  note T = inference_collects_mol_ids [OF z L]
  have a: "map Some [1, 1, 2] =
        map (\<lambda>i. py_int (str_split (example_doc ! nat i) ! 1))
          (filter (\<lambda>i. is_record (example_doc ! nat i)
                       \<and> 3 \<le> length (str_split (example_doc ! nat i))) (py_range 4 8))"
    using T [THEN conjunct2, THEN conjunct1, rule_format, OF example_collect] .
  have c4: "is_record (example_doc ! nat 4) \<and> 3 \<le> length (str_split (example_doc ! nat 4))"
    by code_simp
  have ex: "\<exists>i. 4 \<le> i \<and> i < 8 \<and> is_record (example_doc ! nat i)
                  \<and> 3 \<le> length (str_split (example_doc ! nat i))"
    using c4 by (intro exI [of _ 4]) simp
  have b: "infer_chain_length_and_count example_doc 4 8 \<noteq> Inl EmptyBlock"
    using T [THEN conjunct2, THEN conjunct2] ex by simp
  show ?thesis using z L example_collect a b by simp
qed

subsection \<open>When the remapper reports a malformed record\<close>

lemma remap_loop_malformed:
  assumes "\<forall>i\<in>set idxs. 0 \<le> i \<and> i < int (length lines)"
    and "length nl = length lines"
    and "cl \<noteq> 0"
    and "idxs = pre @ i # post"
    and "is_record (lines ! nat i)" and "length (str_split (lines ! nat i)) < 6"
    and "\<forall>j\<in>set pre. is_record (lines ! nat j) \<longrightarrow> py_int (str_split (lines ! nat j) ! 0) \<noteq> None"
  shows "remap_loop cl lines nl idxs = Inl MalformedRecord"
  using assms
proof (induction pre arbitrary: idxs nl)
  case Nil
  have g: "getitem lines i = Inr (lines ! nat i)"
    using Nil.prems(1,4) by (simp add: getitem_nonneg)
  have "line_result cl (lines ! nat i) = Inl MalformedRecord"
    using Nil.prems(5,6) by (simp add: line_result_malformed)
  then show ?case using g Nil.prems(4)
    by (simp add: remap_loop_Cons del: remap_loop.simps)
next
  case (Cons j pre)
  have idxs: "idxs = j # (pre @ i # post)" using Cons.prems(4) by simp
  have g: "getitem lines j = Inr (lines ! nat j)"
    using Cons.prems(1) idxs by (simp add: getitem_nonneg)
  have v: "\<forall>i\<in>set (pre @ i # post). 0 \<le> i \<and> i < int (length lines)"
    using Cons.prems(1) idxs by simp
  have rest: "remap_loop cl lines nl' (pre @ i # post) = Inl MalformedRecord"
    if "length nl' = length lines" for nl'
    using Cons.IH [OF v that Cons.prems(3) refl Cons.prems(5,6)] Cons.prems(7) by simp
  show ?case
  proof (cases "line_result cl (lines ! nat j)")
    case (Inl e)
    have "\<not> (6 \<le> length (str_split (lines ! nat j)) \<and>
              py_int (str_split (lines ! nat j) ! 0) \<noteq> None \<and> cl \<noteq> 0)"
      and rec: "is_record (lines ! nat j)"
      using Inl line_result_ok [of cl "lines ! nat j"] by auto
    moreover have "py_int (str_split (lines ! nat j) ! 0) \<noteq> None"
      using Cons.prems(7) rec by simp
    ultimately have "length (str_split (lines ! nat j)) < 6"
      using Cons.prems(3) by simp
    then have "line_result cl (lines ! nat j) = Inl MalformedRecord"
      using rec by (simp add: line_result_malformed)
    then show ?thesis using g idxs
      by (simp add: remap_loop_Cons del: remap_loop.simps)
  next
    case (Inr r)
    show ?thesis
    proof (cases r)
      case None
      then show ?thesis using g idxs Inr rest [OF Cons.prems(2)]
        by (simp add: remap_loop_Cons del: remap_loop.simps)
    next
      case (Some w)
      have s: "setitem nl j w = Inr (nl[nat j := w])"
        using Cons.prems(1,2) idxs by (simp add: setitem_nonneg)
      have "length (nl[nat j := w]) = length lines" using Cons.prems(2) by simp
      then show ?thesis using g idxs Inr Some s rest
        by (simp add: remap_loop_Cons del: remap_loop.simps)
    qed
  qed
qed

lemma bad_id_parse: "parse_num_atoms bad_id_doc = Inr 2"
  by code_simp

lemma bad_id_find: "find_atoms_block bad_id_doc 2 = Inr (3, 5)"
  by code_simp

lemma bad_id_infer: "infer_chain_length_and_count bad_id_doc 3 5 = Inr (2, 1)"
  by code_simp

lemma bad_id_remap: "remap_to_acag30 bad_id_doc 3 5 2 = Inl InvalidLiteral"
  by code_simp

text \<open>
  C6, as the claim states it, fails.  In the first file the block has a four-field
  record, yet the remapper stops earlier, at a record whose id is not an integer, with
  the error of \<open>int\<close> and not with MalformedRecord.  In the second file every block
  line has six fields and the remapper fails all the same: a failure of the remapper
  does not tell that some line is short.
\<close>

theorem remap_fails_before_short_line:
  "parse_num_atoms bad_id_doc = Inr 2
   \<and> find_atoms_block bad_id_doc 2 = Inr (3, 5)
   \<and> infer_chain_length_and_count bad_id_doc 3 5 = Inr (2, 1)
   \<and> is_record (bad_id_doc ! 4) \<and> length (str_split (bad_id_doc ! 4)) = 4
   \<and> remap_to_acag30 bad_id_doc 3 5 2 = Inl InvalidLiteral
   \<and> remap_to_acag30 bad_id_doc 3 5 2 \<noteq> Inl MalformedRecord
   \<and> parse_num_atoms bad_id_only_doc = Inr 1
   \<and> find_atoms_block bad_id_only_doc 1 = Inr (3, 4)
   \<and> infer_chain_length_and_count bad_id_only_doc 3 4 = Inr (1, 1)
   \<and> length (str_split (bad_id_only_doc ! 3)) = 6
   \<and> remap_to_acag30 bad_id_only_doc 3 4 1 = Inl InvalidLiteral"
proof -
  have "is_record (bad_id_doc ! 4)" by code_simp
  moreover have "length (str_split (bad_id_doc ! 4)) = 4" by code_simp
  moreover have "parse_num_atoms bad_id_only_doc = Inr 1" by code_simp
  moreover have "find_atoms_block bad_id_only_doc 1 = Inr (3, 4)" by code_simp
  moreover have "infer_chain_length_and_count bad_id_only_doc 3 4 = Inr (1, 1)" by code_simp
  moreover have "length (str_split (bad_id_only_doc ! 3)) = 6" by code_simp
  moreover have "remap_to_acag30 bad_id_only_doc 3 4 1 = Inl InvalidLiteral" by code_simp
  ultimately show ?thesis
    using bad_id_parse bad_id_find bad_id_infer bad_id_remap by simp
qed

text \<open>
  C6, amended.  Over a block inside the document and with a chain length other than zero,
  the remapper fails with MalformedRecord exactly when some line of the block that is
  neither blank nor comment-prefixed has fewer than six fields and every such line before
  it has an integer literal in field 0.  Whenever the block has a line that is neither
  blank nor comment-prefixed and has fewer than six fields, the remapper fails; a run
  that reaches the remapper on such a block fails and leaves the file store unchanged.
\<close>

theorem remap_malformed_record:
  assumes "0 \<le> atoms_start" and "atoms_end \<le> int (length lines)" and "chain_len \<noteq> 0"
  shows
    "(remap_to_acag30 lines atoms_start atoms_end chain_len = Inl MalformedRecord \<longleftrightarrow>
        (\<exists>i. atoms_start \<le> i \<and> i < atoms_end \<and> is_record (lines ! nat i)
              \<and> length (str_split (lines ! nat i)) < 6
              \<and> (\<forall>j. atoms_start \<le> j \<and> j < i \<and> is_record (lines ! nat j)
                      \<longrightarrow> py_int (str_split (lines ! nat j) ! 0) \<noteq> None)))
     \<and> ((\<exists>i. atoms_start \<le> i \<and> i < atoms_end \<and> is_record (lines ! nat i)
              \<and> length (str_split (lines ! nat i)) < 6)
          \<longrightarrow> (\<exists>err. remap_to_acag30 lines atoms_start atoms_end chain_len = Inl err))
     \<and> (\<forall>input output w text natoms n_chains.
           files w input = Some text \<and> splitlines text = lines
           \<and> parse_num_atoms lines = Inr natoms
           \<and> find_atoms_block lines natoms = Inr (atoms_start, atoms_end)
           \<and> infer_chain_length_and_count lines atoms_start atoms_end = Inr (chain_len, n_chains)
           \<and> (\<exists>i. atoms_start \<le> i \<and> i < atoms_end \<and> is_record (lines ! nat i)
                   \<and> length (str_split (lines ! nat i)) < 6)
           \<longrightarrow> (\<exists>err. fst (main input output w) = Inl err)
               \<and> files (snd (main input output w)) = files w)"
proof -
  let ?r = "py_range atoms_start atoms_end"
  let ?short = "\<lambda>i. atoms_start \<le> i \<and> i < atoms_end \<and> is_record (lines ! nat i)
              \<and> length (str_split (lines ! nat i)) < 6"
  have v: "\<forall>i\<in>set ?r. 0 \<le> i \<and> i < int (length lines)"
    using assms(1,2) by (rule block_indices_valid)
  have A: "remap_to_acag30 lines atoms_start atoms_end chain_len = Inl MalformedRecord \<longleftrightarrow>
        (\<exists>i. ?short i
              \<and> (\<forall>j. atoms_start \<le> j \<and> j < i \<and> is_record (lines ! nat j)
                      \<longrightarrow> py_int (str_split (lines ! nat j) ! 0) \<noteq> None))"
  proof
    assume "remap_to_acag30 lines atoms_start atoms_end chain_len = Inl MalformedRecord"
    then have "remap_loop chain_len lines lines ?r = Inl MalformedRecord"
      by (simp add: remap_to_acag30_def)
    then obtain pre i post where d: "?r = pre @ i # post"
      and ok: "\<forall>j\<in>set pre. \<exists>r. line_result chain_len (lines ! nat j) = Inr r"
      and bad: "line_result chain_len (lines ! nat i) = Inl MalformedRecord"
      using remap_loop_fails_iff [OF v refl, of chain_len MalformedRecord] by blast
    from py_range_decomp [OF d]
    have i: "atoms_start \<le> i" "i < atoms_end" and pre: "set pre = {j. atoms_start \<le> j \<and> j < i}"
      by simp_all
    have "is_record (lines ! nat i) \<and> length (str_split (lines ! nat i)) < 6"
      using bad by (simp add: line_result_malformed)
    moreover have "\<forall>j. atoms_start \<le> j \<and> j < i \<and> is_record (lines ! nat j)
                      \<longrightarrow> py_int (str_split (lines ! nat j) ! 0) \<noteq> None"
    proof (intro allI impI)
      fix j assume j: "atoms_start \<le> j \<and> j < i \<and> is_record (lines ! nat j)"
      then have "j \<in> set pre" using pre by simp
      then have "\<exists>r. line_result chain_len (lines ! nat j) = Inr r" using ok by blast
      then show "py_int (str_split (lines ! nat j) ! 0) \<noteq> None"
        using j by (simp add: line_result_ok)
    qed
    ultimately show "\<exists>i. ?short i
              \<and> (\<forall>j. atoms_start \<le> j \<and> j < i \<and> is_record (lines ! nat j)
                      \<longrightarrow> py_int (str_split (lines ! nat j) ! 0) \<noteq> None)"
      using i by blast
  next
    assume "\<exists>i. ?short i
              \<and> (\<forall>j. atoms_start \<le> j \<and> j < i \<and> is_record (lines ! nat j)
                      \<longrightarrow> py_int (str_split (lines ! nat j) ! 0) \<noteq> None)"
    then obtain i where i: "atoms_start \<le> i" "i < atoms_end"
      and rec: "is_record (lines ! nat i)" and sh: "length (str_split (lines ! nat i)) < 6"
      and before: "\<forall>j. atoms_start \<le> j \<and> j < i \<and> is_record (lines ! nat j)
                      \<longrightarrow> py_int (str_split (lines ! nat j) ! 0) \<noteq> None"
      by blast
    have d: "?r = py_range atoms_start i @ i # py_range (i + 1) atoms_end"
      using i by (rule py_range_split)
    have pre: "\<forall>j\<in>set (py_range atoms_start i).
                 is_record (lines ! nat j) \<longrightarrow> py_int (str_split (lines ! nat j) ! 0) \<noteq> None"
      using before by (simp add: set_py_range)
    have "remap_loop chain_len lines lines ?r = Inl MalformedRecord"
      using v refl assms(3) d rec sh pre by (rule remap_loop_malformed)
    then show "remap_to_acag30 lines atoms_start atoms_end chain_len = Inl MalformedRecord"
      by (simp add: remap_to_acag30_def)
  qed
  have B: "\<exists>err. remap_to_acag30 lines atoms_start atoms_end chain_len = Inl err"
    if sh: "\<exists>i. ?short i"
  proof (cases "remap_to_acag30 lines atoms_start atoms_end chain_len")
    case (Inl err)
    then show ?thesis by blast
  next
    case (Inr out)
    then have run: "remap_loop chain_len lines lines ?r = Inr out"
      by (simp add: remap_to_acag30_def)
    obtain i where i: "?short i" using sh by blast
    then have "i \<in> set ?r" by (simp add: set_py_range)
    then have "\<exists>r. line_result chain_len (lines ! nat i) = Inr r"
      using remap_loop_all_ok [OF run v] by blast
    moreover have "line_result chain_len (lines ! nat i) = Inl MalformedRecord"
      using i by (simp add: line_result_malformed)
    ultimately show ?thesis by simp
  qed
  have C: "(\<exists>err. fst (main inp outp w) = Inl err)
               \<and> files (snd (main inp outp w)) = files w"
    if h: "files w inp = Some content \<and> splitlines content = lines
           \<and> parse_num_atoms lines = Inr natoms
           \<and> find_atoms_block lines natoms = Inr (atoms_start, atoms_end)
           \<and> infer_chain_length_and_count lines atoms_start atoms_end = Inr (chain_len, n_chains)
           \<and> (\<exists>i. ?short i)"
    for inp outp w content natoms n_chains
  proof -
    obtain err where err: "remap_to_acag30 lines atoms_start atoms_end chain_len = Inl err"
      using B h by blast
    have "fst (main inp outp w) = Inl err"
      using h err main_remap_failure [of w inp content natoms atoms_start atoms_end chain_len n_chains err outp]
      by auto
    then show ?thesis using main_failure_keeps_files by blast
  qed
  show ?thesis using A B C by blast
qed

lemma four_field_parse: "parse_num_atoms four_field_doc = Inr 2"
  by code_simp

lemma four_field_find: "find_atoms_block four_field_doc 2 = Inr (3, 5)"
  by code_simp

lemma four_field_infer: "infer_chain_length_and_count four_field_doc 3 5 = Inr (2, 1)"
  by code_simp

lemma four_field_splitlines: "splitlines (concat four_field_doc) = four_field_doc"
  by code_simp

theorem remap_malformed_record_witness:
  "(0::int) \<le> 3 \<and> 5 \<le> int (length four_field_doc) \<and> (2::int) \<noteq> 0
   \<and> is_record (four_field_doc ! nat 4) \<and> length (str_split (four_field_doc ! nat 4)) = 4
   \<and> remap_to_acag30 four_field_doc 3 5 2 = Inl MalformedRecord
   \<and> (\<exists>err. fst (main ''in.dat'' ''out.dat'' (world_with ''in.dat'' (concat four_field_doc)))
              = Inl err)
   \<and> files (snd (main ''in.dat'' ''out.dat'' (world_with ''in.dat'' (concat four_field_doc))))
       = files (world_with ''in.dat'' (concat four_field_doc))"
proof -
  let ?w = "world_with ''in.dat'' (concat four_field_doc)"
  have z: "(0::int) \<le> 3" by simp
  have L: "5 \<le> int (length four_field_doc)" by code_simp
  have c: "(2::int) \<noteq> 0" by simp
  note T = remap_malformed_record [OF z L c]
  have rec: "is_record (four_field_doc ! nat 4)" by code_simp
  have len: "length (str_split (four_field_doc ! nat 4)) = 4" by code_simp
  have id3: "py_int (str_split (four_field_doc ! nat 3) ! 0) \<noteq> None" by code_simp
  have before: "\<forall>j. 3 \<le> j \<and> j < 4 \<and> is_record (four_field_doc ! nat j)
                  \<longrightarrow> py_int (str_split (four_field_doc ! nat j) ! 0) \<noteq> None"
  proof (intro allI impI)
    fix j :: int assume "3 \<le> j \<and> j < 4 \<and> is_record (four_field_doc ! nat j)"
    then have "j = 3" by simp
    then show "py_int (str_split (four_field_doc ! nat j) ! 0) \<noteq> None" using id3 by simp
  qed
  have ex1: "\<exists>i. 3 \<le> i \<and> i < 5 \<and> is_record (four_field_doc ! nat i)
              \<and> length (str_split (four_field_doc ! nat i)) < 6
              \<and> (\<forall>j. 3 \<le> j \<and> j < i \<and> is_record (four_field_doc ! nat j)
                      \<longrightarrow> py_int (str_split (four_field_doc ! nat j) ! 0) \<noteq> None)"
    using rec len before by (intro exI [of _ 4]) simp
  have a: "remap_to_acag30 four_field_doc 3 5 2 = Inl MalformedRecord"
    using T [THEN conjunct1] ex1 by simp
  have ex2: "\<exists>i. 3 \<le> i \<and> i < 5 \<and> is_record (four_field_doc ! nat i)
              \<and> length (str_split (four_field_doc ! nat i)) < 6"
    using rec len by (intro exI [of _ 4]) simp
  have fw: "files ?w ''in.dat'' = Some (concat four_field_doc)" by (simp add: world_with_def)
  have b: "(\<exists>err. fst (main ''in.dat'' ''out.dat'' ?w) = Inl err)
           \<and> files (snd (main ''in.dat'' ''out.dat'' ?w)) = files ?w"
    using T [THEN conjunct2, THEN conjunct2, rule_format,
        of ?w "''in.dat''" "concat four_field_doc" 2 1 "''out.dat''"]
      fw four_field_splitlines four_field_parse four_field_find four_field_infer ex2
    by simp
  show ?thesis using z L c rec len a b by simp
qed

end
